theory Spec2Isabelle
  imports Main
begin

section \<open>Errors\<close>

text \<open>
  The failures the sources raise.  \<open>StreamrClientError message code\<close> is the client's own
  error class (imported from \<^verbatim>\<open>../StreamrClientError\<close>), \<open>JsError message\<close> is a plain
  \<^verbatim>\<open>new Error(message)\<close> (also any error raised by a transport or a stage), and
  \<open>TypeError message\<close> is the error the JavaScript runtime raises itself, for instance when
  \<^verbatim>\<open>new\<close> is applied to something that is not a constructor.
\<close>

datatype err =
    StreamrClientError string string
  | JsError string
  | TypeError string

section \<open>Gate\<close>

text \<open>
  Modelled from the spec: the class \<^verbatim>\<open>Gate\<close> (imported by PushBuffer from \<^verbatim>\<open>./Gate\<close>) is not
  among the sources.  The specification (4.1) gives it three states, open, closed and locked;
  \<^verbatim>\<open>open()\<close>, \<^verbatim>\<open>close()\<close> and \<^verbatim>\<open>lock()\<close> set the state, \<^verbatim>\<open>setOpenState(bool)\<close> toggles open and
  closed only and is a no-op once locked, and locking is permanent.  \<^verbatim>\<open>check()\<close> resolves true
  when the gate is open, resolves false when it is locked, and otherwise suspends until the
  gate is opened or locked.
\<close>

datatype Gate = Open | Closed | Locked

text \<open>
  Modelled from the spec: the methods of \<^verbatim>\<open>Gate\<close> that set its state.  A locked gate stays
  locked whatever is called on it.
\<close>

definition Gate_open :: "Gate \<Rightarrow> Gate" where
  "Gate_open g = (if g = Locked then Locked else Open)"

definition Gate_close :: "Gate \<Rightarrow> Gate" where
  "Gate_close g = (if g = Locked then Locked else Closed)"

definition Gate_lock :: "Gate \<Rightarrow> Gate" where
  "Gate_lock g = Locked"

definition Gate_setOpenState :: "bool \<Rightarrow> Gate \<Rightarrow> Gate" where
  "Gate_setOpenState shouldBeOpen g = (if shouldBeOpen then Gate_open g else Gate_close g)"

definition Gate_isLocked :: "Gate \<Rightarrow> bool" where
  "Gate_isLocked g = (g = Locked)"

text \<open>
  Modelled from the spec: the promise returned by \<^verbatim>\<open>check()\<close> of \<^verbatim>\<open>Gate\<close>.  Either it
  resolves at once with a boolean, or it stays pending (\<open>Suspends\<close>) until the gate leaves
  the closed state.
\<close>

datatype check_result = Resolves bool | Suspends

definition Gate_check :: "Gate \<Rightarrow> check_result" where
  "Gate_check g = (case g of Open \<Rightarrow> Resolves True | Locked \<Rightarrow> Resolves False | Closed \<Rightarrow> Suspends)"

section \<open>PushBuffer\<close>

text \<open>
  The buffer holds values and errors (\<^verbatim>\<open>(T | Error)[]\<close>); \<^verbatim>\<open>isError\<close> tells them apart, here
  the constructor does.
\<close>

datatype 'a item = Val 'a | Err err

text \<open>
  The async generator \<^verbatim>\<open>iterate()\<close> is an object of the language with a control state of
  its own: created but not started, suspended at the \<^verbatim>\<open>yield\<close>, running but waiting at
  \<^verbatim>\<open>await this.readGate.check()\<close>, or completed.  Requests made while it is running are
  queued by the language and served in order.  Each request settles with a yielded value,
  with completion (\<open>done: true\<close>), or with a rejection.
\<close>

datatype gen_state = SuspendedStart | SuspendedYield | AwaitingRead | Completed

datatype req = ReqNext | ReqReturn | ReqThrow err

datatype 'a iter_result = Yielded 'a | Finished | Thrown err

text \<open>
  The fields of the class; \<open>iterator\<close> and \<open>queue\<close> are the generator's control state and its
  request queue, and \<open>settled\<close> records, in order, how the requests made of the iterator
  have settled (what the consumer observes).
\<close>

record 'a PushBuffer =
  buffer :: "'a item list"
  bufferSize :: int
  writeGate :: Gate
  readGate :: Gate
  error :: "err option"
  isIterating :: bool
  iterator :: gen_state
  queue :: "req list"
  settled :: "'a iter_result list"

definition DEFAULT_BUFFER_SIZE :: int where
  "DEFAULT_BUFFER_SIZE = 256"

definition isSafeInteger :: "int \<Rightarrow> bool" where
  "isSafeInteger n = (- (2 ^ 53 - 1) \<le> n \<and> n \<le> 2 ^ 53 - 1)"

text \<open>
  The constructor; \<open>fresh n\<close> is the object it builds (both gates start closed).  A
  \<^verbatim>\<open>number\<close> that is not an integer is refused by the source and has no counterpart in
  \<open>int\<close>; the offending value is left out of the message.
\<close>

definition fresh :: "int \<Rightarrow> 'a PushBuffer" where
  "fresh n = \<lparr> buffer = [], bufferSize = n,
               writeGate = Gate_close Open, readGate = Gate_close Open,
               error = None, isIterating = False,
               iterator = SuspendedStart, queue = [], settled = [] \<rparr>"

definition new_PushBuffer :: "int \<Rightarrow> err + 'a PushBuffer" where
  "new_PushBuffer n =
     (if \<not> (n > 0 \<and> isSafeInteger n)
      then Inl (StreamrClientError ''bufferSize must be a safe positive integer'' ''INVALID_ARGUMENT'')
      else Inr (fresh n))"

definition isFull :: "'a PushBuffer \<Rightarrow> bool" where
  "isFull s = (int (length (buffer s)) \<ge> bufferSize s)"

definition isDone :: "'a PushBuffer \<Rightarrow> bool" where
  "isDone s = (Gate_isLocked (writeGate s) \<and> Gate_isLocked (readGate s))"

definition isWritable :: "'a PushBuffer \<Rightarrow> bool" where
  "isWritable s = (\<not> Gate_isLocked (writeGate s) \<and> \<not> Gate_isLocked (readGate s))"

definition updateWriteGate :: "'a PushBuffer \<Rightarrow> 'a PushBuffer" where
  "updateWriteGate s = s\<lparr>writeGate := Gate_setOpenState (\<not> isFull s) (writeGate s)\<rparr>"

text \<open>
  \<^verbatim>\<open>push\<close> has no \<^verbatim>\<open>await\<close> before its \<^verbatim>\<open>return\<close>, so its body runs in one piece; the promise
  it returns is the one of \<^verbatim>\<open>writeGate.check()\<close>.
\<close>

definition push :: "'a item \<Rightarrow> 'a PushBuffer \<Rightarrow> check_result \<times> 'a PushBuffer" where
  "push x s =
     (if \<not> isWritable s then (Resolves False, s)
      else let s1 = s\<lparr>buffer := buffer s @ [x]\<rparr>;
               s2 = updateWriteGate s1;
               s3 = s2\<lparr>readGate := Gate_open (readGate s2)\<rparr>
           in (Gate_check (writeGate s3), s3))"

definition lock :: "'a PushBuffer \<Rightarrow> 'a PushBuffer" where
  "lock s = s\<lparr>writeGate := Gate_lock (writeGate s), readGate := Gate_lock (readGate s)\<rparr>"

definition end' :: "err option \<Rightarrow> 'a PushBuffer \<Rightarrow> 'a PushBuffer" where
  "end' e s = lock (case e of Some x \<Rightarrow> s\<lparr>error := Some x\<rparr> | None \<Rightarrow> s)"

definition endWrite :: "err option \<Rightarrow> 'a PushBuffer \<Rightarrow> 'a PushBuffer" where
  "endWrite e s =
     (let s1 = (if e \<noteq> None \<and> error s = None then s\<lparr>error := e\<rparr> else s)
      in s1\<lparr>readGate := Gate_open (readGate s1), writeGate := Gate_lock (writeGate s1)\<rparr>)"

definition clear :: "'a PushBuffer \<Rightarrow> 'a PushBuffer" where
  "clear s = s\<lparr>buffer := []\<rparr>"

definition length' :: "'a PushBuffer \<Rightarrow> nat" where
  "length' s = length (buffer s)"

subsection \<open>The generator \<^verbatim>\<open>iterate()\<close>\<close>

definition settle :: "'a iter_result \<Rightarrow> 'a PushBuffer \<Rightarrow> 'a PushBuffer" where
  "settle r s = s\<lparr>settled := settled s @ [r]\<rparr>"

text \<open>The \<^verbatim>\<open>finally\<close> block, and the generator completing through it with result \<open>r\<close>.\<close>

definition finally_block :: "'a PushBuffer \<Rightarrow> 'a PushBuffer" where
  "finally_block s = lock (s\<lparr>buffer := []\<rparr>)"

definition complete :: "'a iter_result \<Rightarrow> 'a PushBuffer \<Rightarrow> 'a PushBuffer" where
  "complete r s = settle r ((finally_block s)\<lparr>iterator := Completed\<rparr>)"

text \<open>After the outer loop: a stored error is thrown, once, and the generator ends.\<close>

definition after_loop :: "'a PushBuffer \<Rightarrow> 'a PushBuffer" where
  "after_loop s =
     (case error s of
        Some e \<Rightarrow> complete (Thrown e) (s\<lparr>error := None\<rparr>)
      | None \<Rightarrow> complete Finished s)"

text \<open>
  From the condition of the inner \<^verbatim>\<open>while\<close> up to the next point where the generator
  stops: the \<^verbatim>\<open>yield\<close>, a thrown buffered error, one of the two \<^verbatim>\<open>break\<close>s, or the
  \<^verbatim>\<open>await\<close> on the read gate.
\<close>

definition inner_loop :: "'a PushBuffer \<Rightarrow> 'a PushBuffer" where
  "inner_loop s =
     (if buffer s \<noteq> [] \<and> \<not> Gate_isLocked (readGate s) then
        (let v = hd (buffer s);
             s1 = updateWriteGate (s\<lparr>buffer := tl (buffer s)\<rparr>)
         in case v of
              Err e \<Rightarrow> complete (Thrown e) s1
            | Val x \<Rightarrow> settle (Yielded x) (s1\<lparr>iterator := SuspendedYield\<rparr>))
      else if buffer s = [] \<and> Gate_isLocked (writeGate s) then after_loop s
      else if isDone s then after_loop s
      else s\<lparr>readGate := Gate_close (readGate s), iterator := AwaitingRead\<rparr>)"

definition outer_loop :: "'a PushBuffer \<Rightarrow> 'a PushBuffer" where
  "outer_loop s = (if \<not> Gate_isLocked (readGate s) then inner_loop s else after_loop s)"

text \<open>
  One request served by a generator that is not running.  A generator that has not started
  is completed by \<^verbatim>\<open>return\<close> and \<^verbatim>\<open>throw\<close> without running any of its body, so without its
  \<^verbatim>\<open>finally\<close> block; at the \<^verbatim>\<open>yield\<close> both run the \<^verbatim>\<open>finally\<close> block.
\<close>

fun process :: "req \<Rightarrow> 'a PushBuffer \<Rightarrow> 'a PushBuffer" where
  "process ReqNext s =
     (case iterator s of
        SuspendedStart \<Rightarrow> outer_loop (s\<lparr>isIterating := True\<rparr>)
      | SuspendedYield \<Rightarrow> inner_loop s
      | Completed \<Rightarrow> settle Finished s
      | AwaitingRead \<Rightarrow> s)"
| "process ReqReturn s =
     (case iterator s of
        SuspendedStart \<Rightarrow> settle Finished (s\<lparr>iterator := Completed\<rparr>)
      | SuspendedYield \<Rightarrow> complete Finished s
      | Completed \<Rightarrow> settle Finished s
      | AwaitingRead \<Rightarrow> s)"
| "process (ReqThrow e) s =
     (case iterator s of
        SuspendedStart \<Rightarrow> settle (Thrown e) (s\<lparr>iterator := Completed\<rparr>)
      | SuspendedYield \<Rightarrow> complete (Thrown e) s
      | Completed \<Rightarrow> settle (Thrown e) s
      | AwaitingRead \<Rightarrow> s)"

definition submit :: "req \<Rightarrow> 'a PushBuffer \<Rightarrow> 'a PushBuffer" where
  "submit r s = (if iterator s = AwaitingRead then s\<lparr>queue := queue s @ [r]\<rparr> else process r s)"

text \<open>Queued requests are served until the queue is empty or the generator waits again.\<close>

fun drain :: "req list \<Rightarrow> 'a PushBuffer \<Rightarrow> 'a PushBuffer" where
  "drain [] s = s\<lparr>queue := []\<rparr>"
| "drain (r # rs) s =
     (if iterator s = AwaitingRead then s\<lparr>queue := r # rs\<rparr> else drain rs (process r s))"

text \<open>
  The generator waiting at \<^verbatim>\<open>await this.readGate.check()\<close> goes on once the read gate has
  left the closed state: with \<open>ok = false\<close> (gate locked) it breaks out of the loop, with
  \<open>ok = true\<close> it is back at the condition of the outer loop, which tests the lock again;
  \<open>outer_loop\<close> is both.
\<close>

definition resume :: "'a PushBuffer \<Rightarrow> 'a PushBuffer" where
  "resume s =
     (if iterator s = AwaitingRead \<and> readGate s \<noteq> Closed
      then (let s1 = outer_loop s in drain (queue s1) s1)
      else s)"

subsection \<open>The AsyncGenerator implementation of the class\<close>

definition next' :: "'a PushBuffer \<Rightarrow> 'a PushBuffer" where
  "next' s = submit ReqNext s"

definition return' :: "'a PushBuffer \<Rightarrow> 'a PushBuffer" where
  "return' s = submit ReqReturn (end' None s)"

definition throw' :: "err \<Rightarrow> 'a PushBuffer \<Rightarrow> 'a PushBuffer" where
  "throw' e s = submit (ReqThrow e) (endWrite (Some e) s)"

subsection \<open>Sequences of calls\<close>

text \<open>A producer calling \<^verbatim>\<open>push\<close> for each item in turn: the promises returned and the final state.\<close>

fun pushes :: "'a item list \<Rightarrow> 'a PushBuffer \<Rightarrow> check_result list \<times> 'a PushBuffer" where
  "pushes [] s = ([], s)"
| "pushes (x # xs) s =
     (let (r, s1) = push x s; (rs, s2) = pushes xs s1 in (r # rs, s2))"

text \<open>
  What can happen to a buffer, one call at a time: the public methods, and \<open>Resume\<close>, the
  generator going on after its \<^verbatim>\<open>await\<close> once the read gate allows it.  Any order of these
  is an interleaving of producer, consumer and owner.
\<close>

datatype 'a event =
    Push "'a item" | End "err option" | EndWrite "err option" | Clear | Lock
  | Next | Return | Throw err | Resume

fun step :: "'a event \<Rightarrow> 'a PushBuffer \<Rightarrow> 'a PushBuffer" where
  "step (Push x) s = snd (push x s)"
| "step (End e) s = end' e s"
| "step (EndWrite e) s = endWrite e s"
| "step Clear s = clear s"
| "step Lock s = lock s"
| "step Next s = next' s"
| "step Return s = return' s"
| "step (Throw e) s = throw' e s"
| "step Resume s = resume s"

definition run :: "'a event list \<Rightarrow> 'a PushBuffer \<Rightarrow> 'a PushBuffer" where
  "run evs s = fold step evs s"

text \<open>
  A producer that awaits the promise of each \<^verbatim>\<open>push\<close> before it pushes again pushes only
  into an empty buffer (its first push) or when the write gate is no longer closed (the
  promise has resolved).  \<open>awaited evs s\<close> says that every \<open>Push\<close> of \<open>evs\<close>, run from \<open>s\<close>,
  is made in such a state.
\<close>

fun awaited :: "'a event list \<Rightarrow> 'a PushBuffer \<Rightarrow> bool" where
  "awaited [] s = True"
| "awaited (e # es) s =
     ((case e of Push x \<Rightarrow> writeGate s \<noteq> Closed \<or> buffer s = [] | _ \<Rightarrow> True)
      \<and> awaited es (step e s))"

text \<open>
  A read attempt right now: the request that is pending at the read gate if there is one,
  a new \<^verbatim>\<open>next()\<close> otherwise.
\<close>

definition read :: "'a PushBuffer \<Rightarrow> 'a PushBuffer" where
  "read s = (if iterator s = AwaitingRead then resume s else next' s)"

subsection \<open>Starting an iteration\<close>

text \<open>
  \<^verbatim>\<open>new this.constructor.Error(this, message)\<close>: the static member \<^verbatim>\<open>Error\<close> of the class of
  the object.  The class PushBuffer declares no static member and extends nothing, so the
  lookup gives \<^verbatim>\<open>undefined\<close>, and \<^verbatim>\<open>new\<close> of that is a TypeError of the runtime.
\<close>

definition PushBuffer_Error :: "(string \<Rightarrow> err) option" where
  "PushBuffer_Error = None"

definition new_constructor_Error :: "(string \<Rightarrow> err) option \<Rightarrow> string \<Rightarrow> err" where
  "new_constructor_Error ctor message =
     (case ctor of
        None \<Rightarrow> TypeError ''this.constructor.Error is not a constructor''
      | Some c \<Rightarrow> c message)"

definition asyncIterator :: "'a PushBuffer \<Rightarrow> err + 'a PushBuffer" where
  "asyncIterator s =
     (if isIterating s then Inl (new_constructor_Error PushBuffer_Error ''already iterating'')
      else Inr s)"

text \<open>
  \<^verbatim>\<open>collect\<close>: the guard is the method's own; the gathering is \<^verbatim>\<open>G.collect\<close>, which is not
  among the sources, so a call that passes the guard is left at the buffer it hands over.
\<close>

definition collect :: "'a PushBuffer \<Rightarrow> err + 'a PushBuffer" where
  "collect s =
     (if isIterating s
      then Inl (new_constructor_Error PushBuffer_Error ''Cannot collect if already iterating.'')
      else Inr s)"

subsection \<open>Pulling from a source\<close>

text \<open>
  An upstream async generator, as far as a consumer sees it: it yields items and then ends
  or throws.  A pull stops when a \<^verbatim>\<open>push\<close> does not resolve at once; it goes on from the
  rest of the source when the promise resolves.
\<close>

datatype 'a upstream = SrcEnd | SrcThrow err | SrcYield "'a item" "'a upstream"

datatype 'a pulling = PullFinished | PullBlocked "'a upstream"

text \<open>The method \<^verbatim>\<open>PushBuffer.pull\<close>: its \<^verbatim>\<open>catch\<close> block is empty.\<close>

fun PushBuffer_pull :: "'a upstream \<Rightarrow> 'a PushBuffer \<Rightarrow> 'a pulling \<times> 'a PushBuffer" where
  "PushBuffer_pull SrcEnd s = (PullFinished, endWrite None s)"
| "PushBuffer_pull (SrcThrow e) s = (PullFinished, endWrite None s)"
| "PushBuffer_pull (SrcYield v rest) s =
     (case push v s of
        (Resolves ok, s1) \<Rightarrow>
          if \<not> ok \<or> \<not> isWritable s1 then (PullFinished, endWrite None s1)
          else PushBuffer_pull rest s1
      | (Suspends, s1) \<Rightarrow> (PullBlocked rest, s1))"

text \<open>The function \<^verbatim>\<open>pull(src, dest)\<close>: \<^verbatim>\<open>catch\<close> hands the error to \<^verbatim>\<open>dest.endWrite\<close>.\<close>

fun pull_loop :: "'a upstream \<Rightarrow> 'a PushBuffer \<Rightarrow> 'a pulling \<times> 'a PushBuffer" where
  "pull_loop SrcEnd dest = (PullFinished, endWrite None dest)"
| "pull_loop (SrcThrow e) dest = (PullFinished, endWrite None (endWrite (Some e) dest))"
| "pull_loop (SrcYield v rest) dest =
     (case push v dest of
        (Resolves ok, d) \<Rightarrow>
          if \<not> ok then (PullFinished, endWrite None d) else pull_loop rest d
      | (Suspends, d) \<Rightarrow> (PullBlocked rest, d))"

definition pull :: "'a upstream option \<Rightarrow> 'a PushBuffer \<Rightarrow> err + ('a pulling \<times> 'a PushBuffer)" where
  "pull src dest =
     (case src of
        None \<Rightarrow> Inl (JsError ''no source'')
      | Some g \<Rightarrow> Inr (pull_loop g dest))"

text \<open>A blocked pull going on once the promise of its \<^verbatim>\<open>push\<close> has resolved.\<close>

definition PushBuffer_pull_resume ::
    "'a upstream \<Rightarrow> 'a PushBuffer \<Rightarrow> 'a pulling \<times> 'a PushBuffer" where
  "PushBuffer_pull_resume rest s =
     (case Gate_check (writeGate s) of
        Suspends \<Rightarrow> (PullBlocked rest, s)
      | Resolves ok \<Rightarrow>
          if \<not> ok \<or> \<not> isWritable s then (PullFinished, endWrite None s)
          else PushBuffer_pull rest s)"

definition pull_resume :: "'a upstream \<Rightarrow> 'a PushBuffer \<Rightarrow> 'a pulling \<times> 'a PushBuffer" where
  "pull_resume rest dest =
     (case Gate_check (writeGate dest) of
        Suspends \<Rightarrow> (PullBlocked rest, dest)
      | Resolves ok \<Rightarrow>
          if \<not> ok then (PullFinished, endWrite None dest) else pull_loop rest dest)"

subsection \<open>Invariants of the buffer\<close>

text \<open>
  \<open>bounded n s\<close>: the buffer of size \<open>n\<close> holds at most \<open>n\<close> items, and fewer than \<open>n\<close>
  whenever its write gate is open.
\<close>

definition bounded :: "int \<Rightarrow> 'a PushBuffer \<Rightarrow> bool" where
  "bounded n s =
     (0 < n \<and> bufferSize s = n \<and> int (length (buffer s)) \<le> n \<and>
      (writeGate s = Open \<longrightarrow> int (length (buffer s)) < n))"

text \<open>\<open>unclosed n s\<close>: the buffer is bounded and its write gate is open or locked.\<close>

definition unclosed :: "int \<Rightarrow> 'a PushBuffer \<Rightarrow> bool" where
  "unclosed n s = (bounded n s \<and> writeGate s \<noteq> Closed)"

text \<open>
  \<open>ended s\<close>: a generator that has not started has not set \<open>isIterating\<close>; once it is
  completed the write gate is locked, and if its body has run (so its \<^verbatim>\<open>finally\<close> block
  too) the read gate is locked as well and the buffer is empty.
\<close>

definition ended :: "'a PushBuffer \<Rightarrow> bool" where
  "ended s =
     ((iterator s = SuspendedStart \<longrightarrow> \<not> isIterating s) \<and>
      (iterator s = Completed \<longrightarrow> writeGate s = Locked) \<and>
      (iterator s = Completed \<and> isIterating s \<longrightarrow> readGate s = Locked \<and> buffer s = []))"

text \<open>Requests are queued only while the generator waits at the read gate.\<close>

definition queue_idle :: "'a PushBuffer \<Rightarrow> bool" where
  "queue_idle s = (iterator s \<noteq> AwaitingRead \<longrightarrow> queue s = [])"

text \<open>How a request settles on a generator that is completed.\<close>

definition after_completion :: "req \<Rightarrow> 'a iter_result" where
  "after_completion r = (case r of ReqThrow x \<Rightarrow> Thrown x | _ \<Rightarrow> Finished)"

section \<open>pOnce\<close>

text \<open>
  \<^verbatim>\<open>pOnce(fn)\<close> keeps one record, \<^verbatim>\<open>currentCall\<close>, whose status is \<^verbatim>\<open>init\<close>, \<^verbatim>\<open>pending\<close>,
  \<^verbatim>\<open>fulfilled\<close> or \<^verbatim>\<open>rejected\<close>.  A call of the wrapper looks at the status: while pending it
  returns the promise of the call in progress, once settled it returns the value or throws
  the reason again, and only in status \<^verbatim>\<open>init\<close> does it invoke \<^verbatim>\<open>fn\<close>, marking the call
  pending.  \<^verbatim>\<open>reset()\<close> (used by \<^verbatim>\<open>pOne\<close>) is never called on the wrapper the Pipeline keeps.
\<close>

datatype 'v CallStatus = Init | Pending | Fulfilled 'v | Rejected err

datatype 'v pOnce_outcome = Invokes | SamePromise | Value 'v | Throws err

definition pOnceWrap :: "'v CallStatus \<Rightarrow> 'v pOnce_outcome \<times> 'v CallStatus" where
  "pOnceWrap currentCall =
     (case currentCall of
        Pending \<Rightarrow> (SamePromise, currentCall)
      | Fulfilled v \<Rightarrow> (Value v, currentCall)
      | Rejected reason \<Rightarrow> (Throws reason, currentCall)
      | Init \<Rightarrow> (Invokes, Pending))"


definition isStarted :: "'v CallStatus \<Rightarrow> bool" where
  "isStarted currentCall = (currentCall \<noteq> Init)"

section \<open>Signal\<close>

text \<open>
  Modelled from the spec: the class \<^verbatim>\<open>Signal\<close> (imported by Pipeline from \<^verbatim>\<open>./Signal\<close>) is
  not among the sources.  The specification (4.3, 9) describes a broadcast to listeners in
  a fire-once and a fire-many variant: a signal made by \<^verbatim>\<open>Signal.once()\<close> fires on its first
  trigger only (only the first trigger wins), one made by \<^verbatim>\<open>Signal.create()\<close> fires on
  every trigger.  \<open>fired\<close> lists the arguments the listeners were called with, one entry
  for each firing; \<open>triggerCount\<close> counts the firings.  The specification gives a trigger
  no way to fail.
\<close>

record 'x Signal =
  once :: bool
  triggerCount :: nat
  fired :: "'x list"

text \<open>
  Modelled from the spec: the two ways of making a \<^verbatim>\<open>Signal\<close> and its \<^verbatim>\<open>trigger\<close>.
\<close>

definition Signal_once :: "'x Signal" where
  "Signal_once = \<lparr> once = True, triggerCount = 0, fired = [] \<rparr>"

definition Signal_create :: "'x Signal" where
  "Signal_create = \<lparr> once = False, triggerCount = 0, fired = [] \<rparr>"

definition trigger :: "'x \<Rightarrow> 'x Signal \<Rightarrow> 'x Signal" where
  "trigger x g =
     (if once g \<and> triggerCount g \<noteq> 0 then g
      else g\<lparr>triggerCount := triggerCount g + 1, fired := fired g @ [x]\<rparr>)"

section \<open>Pipeline\<close>

text \<open>
  A transform maps a generator to a generator; \<open>'g\<close> is the type of generators (the list
  of transforms is untyped in the source as well).  The source is an object or
  \<^verbatim>\<open>undefined\<close>.
\<close>

record 'g PipelineDefinition =
  source :: "'g option"
  transforms :: "('g \<Rightarrow> 'g) list"
  transformsBefore :: "('g \<Rightarrow> 'g) list"

text \<open>
  The constructor calls \<^verbatim>\<open>setSource\<close>, whose test \<^verbatim>\<open>'id' in source\<close> is a TypeError of the
  runtime when there is no source.  The id it attaches is a debug label and is left out.
\<close>

definition new_PipelineDefinition ::
    "'g option \<Rightarrow> ('g \<Rightarrow> 'g) list \<Rightarrow> ('g \<Rightarrow> 'g) list \<Rightarrow> err + 'g PipelineDefinition" where
  "new_PipelineDefinition src ts tbs =
     (case src of
        None \<Rightarrow> Inl (TypeError ''Cannot use in operator to search for id in undefined'')
      | Some g \<Rightarrow> Inr \<lparr> source = Some g, transforms = ts, transformsBefore = tbs \<rparr>)"

definition pipe :: "('g \<Rightarrow> 'g) \<Rightarrow> 'g PipelineDefinition \<Rightarrow> 'g PipelineDefinition" where
  "pipe fn d = d\<lparr>transforms := transforms d @ [fn]\<rparr>"

definition pipeBefore :: "('g \<Rightarrow> 'g) \<Rightarrow> 'g PipelineDefinition \<Rightarrow> 'g PipelineDefinition" where
  "pipeBefore fn d = d\<lparr>transformsBefore := transformsBefore d @ [fn]\<rparr>"


definition getTransforms :: "'g PipelineDefinition \<Rightarrow> ('g \<Rightarrow> 'g) list" where
  "getTransforms d = transformsBefore d @ transforms d"

text \<open>
  Where the body of \<^verbatim>\<open>cleanup\<close> stands: not entered, at one of its four \<^verbatim>\<open>await\<close>s, run to
  its end, or left early by an exception from one of the two \<^verbatim>\<open>await\<close>s of its outer
  \<^verbatim>\<open>finally\<close> block.
\<close>

datatype cleanup_pc =
    Idle | AwaitOnError | AwaitSourceReturn | AwaitBeforeFinally | AwaitFinally
  | CleanedUp | Aborted

text \<open>
  Where the generator \<^verbatim>\<open>iterate()\<close> stands: not started; in its loop (suspended at the
  \<^verbatim>\<open>yield\<close> or waiting for the next message); leaving the loop from the \<^verbatim>\<open>yield\<close>, where
  \<^verbatim>\<open>for await\<close> closes the composed generator and waits for its \<^verbatim>\<open>return()\<close> (with the
  exception thrown at the \<^verbatim>\<open>yield\<close>, if any); in its \<^verbatim>\<open>catch\<close> block at
  \<^verbatim>\<open>await this.handleError(err)\<close>; in its \<^verbatim>\<open>finally\<close> block at
  \<^verbatim>\<open>await this.onBeforeFinally.trigger()\<close> (with the exception in flight, if any); or
  completed.
\<close>

datatype iterate_pc =
    NotStarted | Iterating | AwaitClose "err option" | AwaitHandleError
  | AwaitIterateFinally "err option" | Ended

text \<open>
  A call of \<^verbatim>\<open>return()\<close> or \<^verbatim>\<open>throw(err)\<close> in progress, suspended at its first or its second
  \<^verbatim>\<open>await\<close>.
\<close>

datatype caller =
  ReturnAtBeforeFinally | ReturnAtSource | ThrowAtBeforeFinally err | ThrowAtSource err

text \<open>
  The fields of the class.  \<open>cleanup\<close> is the record of \<^verbatim>\<open>pOnce(this.cleanup.bind(this))\<close>;
  \<open>cleanup_pc\<close>, \<open>cleanup_error\<close> and \<open>cleanup_thrown\<close> are the control state of the body of
  \<^verbatim>\<open>cleanup\<close> (where it stands, its argument, the exception in flight) and \<open>cleanup_runs\<close>
  counts how often that body was entered; \<open>iterate_pc\<close> is the control state of the
  generator behind \<^verbatim>\<open>this.iterator\<close>; \<open>suspended\<close> holds the calls of \<^verbatim>\<open>return()\<close> and
  \<^verbatim>\<open>throw()\<close> that have not finished.
\<close>

record 'g Pipeline =
  pipeline_definition :: "'g PipelineDefinition"
  pipeline_isIterating :: bool
  isCleaningUp :: bool
  cleanup :: "unit CallStatus"
  cleanup_pc :: cleanup_pc
  cleanup_error :: "err option"
  cleanup_thrown :: "err option"
  cleanup_runs :: nat
  iterate_pc :: iterate_pc
  suspended :: "caller list"
  onFinally :: "err option Signal"
  onBeforeFinally :: "unit Signal"
  onStart :: "unit Signal"
  onError :: "err Signal"

text \<open>
  The constructor; \<open>fresh_Pipeline d\<close> is the object it builds around the definition \<open>d\<close>,
  which is the one passed in or a new one made from the source.
\<close>

definition fresh_Pipeline :: "'g PipelineDefinition \<Rightarrow> 'g Pipeline" where
  "fresh_Pipeline d =
     \<lparr> pipeline_definition = d, pipeline_isIterating = False, isCleaningUp = False,
       cleanup = Init, cleanup_pc = Idle, cleanup_error = None, cleanup_thrown = None,
       cleanup_runs = 0, iterate_pc = NotStarted, suspended = [],
       onFinally = Signal_once, onBeforeFinally = Signal_once, onStart = Signal_once,
       onError = Signal_create \<rparr>"

definition new_Pipeline :: "'g option \<Rightarrow> 'g PipelineDefinition option \<Rightarrow> err + 'g Pipeline" where
  "new_Pipeline src definition' =
     (case (case definition' of Some d \<Rightarrow> Inr d | None \<Rightarrow> new_PipelineDefinition src [] []) of
        Inl e \<Rightarrow> Inl e
      | Inr d \<Rightarrow> Inr (fresh_Pipeline d))"

definition Pipeline_pipe :: "('g \<Rightarrow> 'g) \<Rightarrow> 'g Pipeline \<Rightarrow> err + 'g Pipeline" where
  "Pipeline_pipe fn p =
     (if pipeline_isIterating p
      then Inl (StreamrClientError ''cannot pipe after already iterating: true'' ''PIPELINE_ERROR'')
      else Inr (p\<lparr>pipeline_definition := pipe fn (pipeline_definition p)\<rparr>))"

definition Pipeline_pipeBefore :: "('g \<Rightarrow> 'g) \<Rightarrow> 'g Pipeline \<Rightarrow> err + 'g Pipeline" where
  "Pipeline_pipeBefore fn p =
     (if pipeline_isIterating p
      then Inl (StreamrClientError ''cannot pipe after already iterating: true'' ''PIPELINE_ERROR'')
      else Inr (p\<lparr>pipeline_definition := pipeBefore fn (pipeline_definition p)\<rparr>))"

definition Pipeline_asyncIterator :: "'g Pipeline \<Rightarrow> err + 'g Pipeline" where
  "Pipeline_asyncIterator p =
     (if pipeline_isIterating p then Inl (StreamrClientError ''already iterating'' ''PIPELINE_ERROR'')
      else Inr p)"

text \<open>
  The start of \<^verbatim>\<open>iterate()\<close>, up to the composed generator: each transform is applied to
  the generator made so far, the source first.
\<close>

definition iterate_begin :: "'g Pipeline \<Rightarrow> (err + 'g) \<times> 'g Pipeline" where
  "iterate_begin p =
     (let p1 = p\<lparr>pipeline_isIterating := True, onStart := trigger () (onStart p)\<rparr>
      in case source (pipeline_definition p1) of
           None \<Rightarrow> (Inl (StreamrClientError ''no source'' ''PIPELINE_ERROR''), p1)
         | Some src \<Rightarrow>
             (Inr (foldl (\<lambda>prev transform. transform prev) src
                     (getTransforms (pipeline_definition p1))), p1))"

text \<open>Calls of \<^verbatim>\<open>pipe\<close> and \<^verbatim>\<open>pipeBefore\<close>, in the order they are made.\<close>

datatype 'g piping = Pipe "'g \<Rightarrow> 'g" | PipeBefore "'g \<Rightarrow> 'g"

fun pipings :: "'g piping list \<Rightarrow> 'g Pipeline \<Rightarrow> err + 'g Pipeline" where
  "pipings [] p = Inr p"
| "pipings (c # cs) p =
     (case (case c of Pipe fn \<Rightarrow> Pipeline_pipe fn p | PipeBefore fn \<Rightarrow> Pipeline_pipeBefore fn p) of
        Inl e \<Rightarrow> Inl e
      | Inr p1 \<Rightarrow> pipings cs p1)"

text \<open>
  The order the specification names: the stages given to \<^verbatim>\<open>pipeBefore\<close>, in call order,
  and the stages given to \<^verbatim>\<open>pipe\<close>, in call order.
\<close>

fun stagesBefore :: "'g piping list \<Rightarrow> ('g \<Rightarrow> 'g) list" where
  "stagesBefore [] = []"
| "stagesBefore (PipeBefore fn # cs) = fn # stagesBefore cs"
| "stagesBefore (Pipe fn # cs) = stagesBefore cs"

fun stages :: "'g piping list \<Rightarrow> ('g \<Rightarrow> 'g) list" where
  "stages [] = []"
| "stages (Pipe fn # cs) = fn # stages cs"
| "stages (PipeBefore fn # cs) = stages cs"

subsection \<open>Teardown\<close>

text \<open>
  The body of \<^verbatim>\<open>cleanup(error)\<close> up to its first \<^verbatim>\<open>await\<close>: with an error it triggers
  \<^verbatim>\<open>onError\<close>, without one it goes straight to \<^verbatim>\<open>definition.source.return\<close> in the inner
  \<^verbatim>\<open>finally\<close> block.
\<close>

definition cleanup_begin :: "err option \<Rightarrow> 'g Pipeline \<Rightarrow> 'g Pipeline" where
  "cleanup_begin e p =
     (let p1 = p\<lparr>isCleaningUp := True, cleanup_runs := cleanup_runs p + 1,
                 cleanup_error := e, cleanup_thrown := None\<rparr>
      in case e of
           Some x \<Rightarrow> p1\<lparr>onError := trigger x (onError p1), cleanup_pc := AwaitOnError\<rparr>
         | None \<Rightarrow> p1\<lparr>cleanup_pc := AwaitSourceReturn\<rparr>)"



text \<open>A call of \<^verbatim>\<open>this.cleanup\<close>, which the constructor has wrapped in \<^verbatim>\<open>pOnce\<close>.\<close>

definition call_cleanup :: "err option \<Rightarrow> 'g Pipeline \<Rightarrow> 'g Pipeline" where
  "call_cleanup e p =
     (case pOnceWrap (cleanup p) of
        (Invokes, c) \<Rightarrow> cleanup_begin e (p\<lparr>cleanup := c\<rparr>)
      | (_, c) \<Rightarrow> p\<lparr>cleanup := c\<rparr>)"

text \<open>
  Modelled from the spec: \<^verbatim>\<open>iteratorFinally\<close> (imported from \<^verbatim>\<open>./iterators\<close>) is not among
  the sources.  The constructor wraps the generator \<^verbatim>\<open>this.iterate()\<close> with it and hands it
  \<^verbatim>\<open>this.cleanup\<close>.  By the specification (4.3) cleanup is triggered by natural completion,
  by \<^verbatim>\<open>return()\<close> and by \<^verbatim>\<open>throw()\<close>: the wrapper passes \<^verbatim>\<open>next\<close>, \<^verbatim>\<open>return\<close> and \<^verbatim>\<open>throw\<close> on
  to the generator and calls \<^verbatim>\<open>cleanup\<close> when the generator has completed, with the error
  it completed with, if any.  \<open>iterator_ends\<close> is the completion of the generator.
\<close>

definition iterator_ends :: "err option \<Rightarrow> 'g Pipeline \<Rightarrow> 'g Pipeline" where
  "iterator_ends completion p = call_cleanup completion (p\<lparr>iterate_pc := Ended\<rparr>)"

text \<open>
  The \<^verbatim>\<open>finally\<close> block of \<^verbatim>\<open>iterate()\<close>, entered with the completion of the \<^verbatim>\<open>try\<close> statement
  (an exception or none): it triggers \<^verbatim>\<open>onBeforeFinally\<close> unless its \<^verbatim>\<open>triggerCount\<close> is set,
  and the generator completes.
\<close>

definition iterate_finally :: "err option \<Rightarrow> 'g Pipeline \<Rightarrow> 'g Pipeline" where
  "iterate_finally completion p =
     (let p1 = p\<lparr>isCleaningUp := True\<rparr>
      in if triggerCount (onBeforeFinally p1) = 0
         then p1\<lparr>onBeforeFinally := trigger () (onBeforeFinally p1),
                 iterate_pc := AwaitIterateFinally completion\<rparr>
         else iterator_ends completion p1)"

text \<open>
  The \<^verbatim>\<open>catch\<close> block of \<^verbatim>\<open>iterate()\<close> up to the \<^verbatim>\<open>await\<close> in \<^verbatim>\<open>handleError\<close>, which triggers
  \<^verbatim>\<open>onError\<close>.
\<close>

definition iterate_catch :: "err \<Rightarrow> 'g Pipeline \<Rightarrow> 'g Pipeline" where
  "iterate_catch e p =
     p\<lparr>isCleaningUp := True, onError := trigger e (onError p), iterate_pc := AwaitHandleError\<rparr>"



definition iterate_resumes :: "err option \<Rightarrow> 'g Pipeline \<Rightarrow> 'g Pipeline" where
  "iterate_resumes rejection p =
     (case iterate_pc p of
        AwaitClose (Some e) \<Rightarrow> iterate_catch e p
      | AwaitClose None \<Rightarrow>
          (case rejection of Some x \<Rightarrow> iterate_catch x p | None \<Rightarrow> iterate_finally None p)
      | AwaitHandleError \<Rightarrow> iterate_finally rejection p
      | AwaitIterateFinally completion \<Rightarrow>
          iterator_ends (case rejection of Some x \<Rightarrow> Some x | None \<Rightarrow> completion) p
      | _ \<Rightarrow> p)"














text \<open>
  \<open>leaving p\<close>: the generator is on its way out, closing the composed generator or in its
  \<^verbatim>\<open>catch\<close> or \<^verbatim>\<open>finally\<close> block.

  \<open>torn p\<close>: the two signals have fired at most once; the body of \<^verbatim>\<open>cleanup\<close> has been
  entered exactly when the record of \<^verbatim>\<open>pOnce\<close> has left \<^verbatim>\<open>init\<close>, and then once;
  \<^verbatim>\<open>onFinally\<close> has fired, with the argument of that call, exactly when the body is past
  its trigger; and once \<^verbatim>\<open>isCleaningUp\<close> is set or the generator has completed, either
  \<^verbatim>\<open>cleanup\<close> has been called or the generator is on its way out.

  \<open>winding p\<close>: a teardown is in progress.

  \<open>kept p q\<close>: from \<open>p\<close> to \<open>q\<close> the body of \<^verbatim>\<open>cleanup\<close> has not been entered again, and its
  argument is the same.

  \<open>unaborted p\<close>: the body of \<^verbatim>\<open>cleanup\<close> has not been left by an exception of one of the
  once signals.

  \<open>remaining c\<close>: the number of \<^verbatim>\<open>await\<close>s a call in progress has yet to pass.
\<close>

definition leaving :: "'g Pipeline \<Rightarrow> bool" where
  "leaving p =
     (case iterate_pc p of
        AwaitClose completion \<Rightarrow> True | AwaitHandleError \<Rightarrow> True
      | AwaitIterateFinally completion \<Rightarrow> True | _ \<Rightarrow> False)"

definition torn :: "'g Pipeline \<Rightarrow> bool" where
  "torn p =
     (once (onBeforeFinally p) \<and>
      triggerCount (onFinally p) = length (fired (onFinally p)) \<and>
      triggerCount (onBeforeFinally p) = length (fired (onBeforeFinally p)) \<and>
      length (fired (onBeforeFinally p)) \<le> 1 \<and>
      ((cleanup p = Init) = (cleanup_pc p = Idle)) \<and>
      cleanup_runs p = (if cleanup_pc p = Idle then 0 else 1) \<and>
      (if cleanup_pc p = AwaitFinally \<or> cleanup_pc p = CleanedUp
       then fired (onFinally p) = [cleanup_error p]
       else if cleanup_pc p = Aborted then length (fired (onFinally p)) \<le> 1
       else fired (onFinally p) = []) \<and>
      (cleanup_pc p = AwaitBeforeFinally \<or> cleanup_pc p = AwaitFinally \<or> cleanup_pc p = CleanedUp
         \<longrightarrow> length (fired (onBeforeFinally p)) = 1) \<and>
      (isCleaningUp p \<or> iterate_pc p = Ended \<longrightarrow> cleanup p \<noteq> Init \<or> leaving p))"








section \<open>OrderingUtil\<close>

text \<open>
  A message as far as the multiplexer looks at it (\<^verbatim>\<open>StreamMessage\<close> of the protocol
  package): its publisher id, its message chain id, and a reference that tells messages
  apart.
\<close>

record StreamMessage =
  getPublisherId :: string
  getMsgChainId :: string
  messageRef :: nat

text \<open>
  The publisher id has the type \<^verbatim>\<open>EthereumAddress\<close> of the package \<^verbatim>\<open>@streamr/utils\<close>: a
  string of 42 characters, \<^verbatim>\<open>0x\<close> and 40 hexadecimal digits in lower case.
\<close>

definition isEthereumAddress :: "string \<Rightarrow> bool" where
  "isEthereumAddress a =
     (length a = 42 \<and> take 2 a = ''0x'' \<and> list_all (\<lambda>c. c \<in> set ''0123456789abcdef'') (drop 2 a))"

text \<open>
  Modelled from the spec: the class \<^verbatim>\<open>OrderedMsgChain\<close> (imported from
  \<^verbatim>\<open>./OrderedMsgChain\<close>) is not among the sources.  Of a chain the model keeps what the
  multiplexer passes to its constructor (the two handlers apart) and, in \<open>chain_received\<close>,
  the messages handed to its \<^verbatim>\<open>add\<close> and \<^verbatim>\<open>markMessageExplicitly\<close>, in order; the ordering
  and the gap protocol inside a chain are not modelled.  By the specification (4.4)
  \<^verbatim>\<open>disable()\<close> sets \<^verbatim>\<open>maxGapRequests\<close> to 0, \<^verbatim>\<open>clearGap()\<close> cancels timers, and a resend is
  requested on a deadline only when \<open>attemptsMade < maxGapRequests\<close>; for a chain built
  without a bound nothing is assumed, a request may be made.
\<close>

record OrderedMsgChain =
  chain_publisherId :: string
  chain_msgChainId :: string
  chain_propagationTimeout :: "nat option"
  chain_resendTimeout :: "nat option"
  chain_maxGapRequests :: "nat option"
  chain_received :: "StreamMessage list"

text \<open>
  Modelled from the spec: the constructor and the methods of \<^verbatim>\<open>OrderedMsgChain\<close> that
  the multiplexer calls, and the condition under which a chain requests a resend.
\<close>

definition new_OrderedMsgChain ::
    "string \<Rightarrow> string \<Rightarrow> nat option \<Rightarrow> nat option \<Rightarrow> nat option \<Rightarrow> OrderedMsgChain" where
  "new_OrderedMsgChain publisherId msgChainId pt rt mg =
     \<lparr> chain_publisherId = publisherId, chain_msgChainId = msgChainId,
       chain_propagationTimeout = pt, chain_resendTimeout = rt, chain_maxGapRequests = mg,
       chain_received = [] \<rparr>"

definition chain_add :: "StreamMessage \<Rightarrow> OrderedMsgChain \<Rightarrow> OrderedMsgChain" where
  "chain_add m c = c\<lparr>chain_received := chain_received c @ [m]\<rparr>"

definition chain_markMessageExplicitly :: "StreamMessage \<Rightarrow> OrderedMsgChain \<Rightarrow> OrderedMsgChain" where
  "chain_markMessageExplicitly m c = c\<lparr>chain_received := chain_received c @ [m]\<rparr>"

definition chain_clearGap :: "OrderedMsgChain \<Rightarrow> OrderedMsgChain" where
  "chain_clearGap c = c"

definition chain_disable :: "OrderedMsgChain \<Rightarrow> OrderedMsgChain" where
  "chain_disable c = c\<lparr>chain_maxGapRequests := Some 0\<rparr>"

definition gapRequestAllowed :: "nat \<Rightarrow> OrderedMsgChain \<Rightarrow> bool" where
  "gapRequestAllowed attemptsMade c =
     (case chain_maxGapRequests c of None \<Rightarrow> True | Some m \<Rightarrow> attemptsMade < m)"

text \<open>
  The multiplexer and the chain objects it has made.  \<open>orderedChains\<close> is the object used
  as a dictionary: it holds, for a key, a reference to a chain, in the order in which the
  keys were added.  The chain objects themselves are in \<open>chains\<close>, the store, from
  references to objects; \<open>allocated\<close> is the number of chains constructed, and the
  reference of the next one.  The two handlers are passed on to the chains untouched and
  are left out.
\<close>

type_synonym ref = nat

record OrderingUtil =
  propagationTimeout :: "nat option"
  resendTimeout :: "nat option"
  maxGapRequests :: "nat option"
  orderedChains :: "(string \<times> ref) list"
  chains :: "ref \<rightharpoonup> OrderedMsgChain"
  allocated :: nat

definition new_OrderingUtil :: "nat option \<Rightarrow> nat option \<Rightarrow> nat option \<Rightarrow> OrderingUtil" where
  "new_OrderingUtil pt rt mg =
     \<lparr> propagationTimeout = pt, resendTimeout = rt, maxGapRequests = mg,
       orderedChains = [], chains = Map.empty, allocated = 0 \<rparr>"

text \<open>
  The dictionary: \<open>map_of d key\<close> reads \<^verbatim>\<open>d[key]\<close>, \<open>assign key v d\<close> is \<^verbatim>\<open>d[key] = v\<close>, which
  replaces the value of a key already there and adds a new key at the end, and
  \<open>Object_values d\<close> is \<^verbatim>\<open>Object.values(d)\<close>.
\<close>

fun assign :: "string \<Rightarrow> 'v \<Rightarrow> (string \<times> 'v) list \<Rightarrow> (string \<times> 'v) list" where
  "assign key v [] = [(key, v)]"
| "assign key v ((key', v') # d) =
     (if key' = key then (key, v) # d else (key', v') # assign key v d)"

definition Object_values :: "(string \<times> 'v) list \<Rightarrow> 'v list" where
  "Object_values d = map snd d"

text \<open>The key of a chain: the publisher id followed by the message chain id.\<close>

definition chainKey :: "string \<Rightarrow> string \<Rightarrow> string" where
  "chainKey publisherId msgChainId = publisherId @ msgChainId"

text \<open>
  \<^verbatim>\<open>getChain\<close> returns a reference.  When the dictionary has nothing under the key it
  constructs a chain, which takes the next reference of the store, and writes the
  reference into the dictionary; this is the only place where the dictionary is written.
  The listeners it puts on a new chain pass the events of the chain on and are left out.
\<close>

definition getChain :: "string \<Rightarrow> string \<Rightarrow> OrderingUtil \<Rightarrow> ref \<times> OrderingUtil" where
  "getChain publisherId msgChainId u =
     (let key = chainKey publisherId msgChainId
      in case map_of (orderedChains u) key of
           None \<Rightarrow>
             (let chain = allocated u;
                  u1 = u\<lparr>chains := (chains u)(chain \<mapsto>
                           new_OrderedMsgChain publisherId msgChainId
                             (propagationTimeout u) (resendTimeout u) (maxGapRequests u)),
                         allocated := Suc (allocated u)\<rparr>
              in (chain, u1\<lparr>orderedChains := assign key chain (orderedChains u1)\<rparr>))
         | Some chain \<Rightarrow> (chain, u))"

text \<open>
  \<open>invoke method chain u\<close> is the call \<^verbatim>\<open>chain.method()\<close>: the object that \<open>chain\<close> refers
  to is changed where it is, in the store, and is seen changed through every reference
  to it.
\<close>

definition invoke :: "(OrderedMsgChain \<Rightarrow> OrderedMsgChain) \<Rightarrow> ref \<Rightarrow> OrderingUtil \<Rightarrow> OrderingUtil" where
  "invoke method chain u = u\<lparr>chains := (chains u)(chain := map_option method (chains u chain))\<rparr>"

definition add :: "StreamMessage \<Rightarrow> OrderingUtil \<Rightarrow> OrderingUtil" where
  "add m u =
     (let (chain, u1) = getChain (getPublisherId m) (getMsgChainId m) u
      in invoke (chain_add m) chain u1)"

definition markMessageExplicitly :: "StreamMessage \<Rightarrow> OrderingUtil \<Rightarrow> OrderingUtil" where
  "markMessageExplicitly m u =
     (let (chain, u1) = getChain (getPublisherId m) (getMsgChainId m) u
      in invoke (chain_markMessageExplicitly m) chain u1)"

definition clearGaps :: "OrderingUtil \<Rightarrow> OrderingUtil" where
  "clearGaps u = fold (invoke chain_clearGap) (Object_values (orderedChains u)) u"

definition disable :: "OrderingUtil \<Rightarrow> OrderingUtil" where
  "disable u =
     (let u1 = u\<lparr>maxGapRequests := Some 0\<rparr>
      in fold (invoke chain_disable) (Object_values (orderedChains u1)) u1)"

text \<open>The calls made of a multiplexer, in order.\<close>

datatype ordering_call = Add StreamMessage | Mark StreamMessage | ClearGaps | Disable

fun ordering_step :: "ordering_call \<Rightarrow> OrderingUtil \<Rightarrow> OrderingUtil" where
  "ordering_step (Add m) u = add m u"
| "ordering_step (Mark m) u = markMessageExplicitly m u"
| "ordering_step ClearGaps u = clearGaps u"
| "ordering_step Disable u = disable u"

definition ordering_calls :: "ordering_call list \<Rightarrow> OrderingUtil \<Rightarrow> OrderingUtil" where
  "ordering_calls cs u = fold ordering_step cs u"

text \<open>The messages among the calls, in order, and whether they all come from addresses.\<close>

fun routed :: "ordering_call list \<Rightarrow> StreamMessage list" where
  "routed [] = []"
| "routed (Add m # cs) = m # routed cs"
| "routed (Mark m # cs) = m # routed cs"
| "routed (_ # cs) = routed cs"

definition wellFormed :: "ordering_call list \<Rightarrow> bool" where
  "wellFormed cs = list_all (\<lambda>m. isEthereumAddress (getPublisherId m)) (routed cs)"

text \<open>
  \<open>chainOf u key\<close> is the chain object that the dictionary holds under \<open>key\<close>, if any.

  \<open>disabled u\<close>: the multiplexer and every chain it holds have \<^verbatim>\<open>maxGapRequests\<close> 0.

  \<open>sameChain u m m'\<close>: one chain object has received both messages.

  \<open>sorted_by_key ms u\<close>: every key of the dictionary refers to a chain object made by
  this multiplexer, which carries the publisher id and chain id of the key and has
  received, of the messages \<open>ms\<close>, exactly those that carry that pair, in order, and at
  least one; a key that is not in the dictionary has no message; and every chain object
  is in the dictionary, under the key of its own pair.

  \<open>one_per_key u\<close>: as many chains have been constructed as the dictionary has keys.
\<close>

definition chainOf :: "OrderingUtil \<Rightarrow> string \<Rightarrow> OrderedMsgChain option" where
  "chainOf u key = (case map_of (orderedChains u) key of None \<Rightarrow> None | Some chain \<Rightarrow> chains u chain)"

definition disabled :: "OrderingUtil \<Rightarrow> bool" where
  "disabled u =
     (maxGapRequests u = Some 0 \<and>
      (\<forall>key c. chainOf u key = Some c \<longrightarrow> chain_maxGapRequests c = Some 0))"

definition samePair :: "StreamMessage \<Rightarrow> StreamMessage \<Rightarrow> bool" where
  "samePair m m' =
     ((getPublisherId m, getMsgChainId m) = (getPublisherId m', getMsgChainId m'))"

definition sameChain :: "OrderingUtil \<Rightarrow> StreamMessage \<Rightarrow> StreamMessage \<Rightarrow> bool" where
  "sameChain u m m' =
     (\<exists>chain c. chains u chain = Some c \<and> m \<in> set (chain_received c) \<and>
                m' \<in> set (chain_received c))"

definition sorted_chain :: "StreamMessage list \<Rightarrow> string \<Rightarrow> OrderedMsgChain \<Rightarrow> bool" where
  "sorted_chain ms key c =
     (isEthereumAddress (chain_publisherId c) \<and>
      key = chainKey (chain_publisherId c) (chain_msgChainId c) \<and>
      chain_received c \<noteq> [] \<and>
      chain_received c =
        filter (\<lambda>m. (getPublisherId m, getMsgChainId m) =
                     (chain_publisherId c, chain_msgChainId c)) ms)"

definition sorted_by_key :: "StreamMessage list \<Rightarrow> OrderingUtil \<Rightarrow> bool" where
  "sorted_by_key ms u =
     ((\<forall>key. case map_of (orderedChains u) key of
         None \<Rightarrow> \<forall>m \<in> set ms. chainKey (getPublisherId m) (getMsgChainId m) \<noteq> key
       | Some chain \<Rightarrow>
           chain < allocated u \<and> (\<exists>c. chains u chain = Some c \<and> sorted_chain ms key c)) \<and>
      (\<forall>chain c. chains u chain = Some c \<longrightarrow>
         map_of (orderedChains u) (chainKey (chain_publisherId c) (chain_msgChainId c)) =
           Some chain))"

definition one_per_key :: "OrderingUtil \<Rightarrow> bool" where
  "one_per_key u =
     (allocated u = length (orderedChains u) \<and> distinct (map fst (orderedChains u)))"

text \<open>Two publishers and three messages, for examples.\<close>

definition publisherA :: string where
  "publisherA = ''0xaaaaaaaaaaaaaaaaaaaaaaaaaaaaaaaaaaaaaaaa''"

definition publisherB :: string where
  "publisherB = ''0xbbbbbbbbbbbbbbbbbbbbbbbbbbbbbbbbbbbbbbbb''"

definition msgA1 :: StreamMessage where
  "msgA1 = \<lparr> getPublisherId = publisherA, getMsgChainId = ''c1'', messageRef = 1 \<rparr>"

definition msgA2 :: StreamMessage where
  "msgA2 = \<lparr> getPublisherId = publisherA, getMsgChainId = ''c1'', messageRef = 2 \<rparr>"

definition msgB1 :: StreamMessage where
  "msgB1 = \<lparr> getPublisherId = publisherB, getMsgChainId = ''c1'', messageRef = 1 \<rparr>"

section \<open>Properties of PushBuffer\<close>

lemmas gate_defs = Gate_open_def Gate_close_def Gate_lock_def Gate_setOpenState_def
  Gate_isLocked_def Gate_check_def

lemma new_PushBuffer_Inr: "new_PushBuffer n = Inr b \<Longrightarrow> b = fresh n \<and> 0 < n"
  by (auto simp: new_PushBuffer_def split: if_splits)

subsection \<open>Pushing before any read\<close>

lemma pushes_unlocked:
  "\<not> Gate_isLocked (writeGate s) \<Longrightarrow> \<not> Gate_isLocked (readGate s) \<Longrightarrow>
   pushes xs s =
     (map (\<lambda>k. if int (length (buffer s)) + int (Suc k) < bufferSize s
                then Resolves True else Suspends) [0..<length xs],
      if xs = [] then s
      else s\<lparr>buffer := buffer s @ xs,
             writeGate := (if int (length (buffer s) + length xs) < bufferSize s
                           then Open else Closed),
             readGate := Open\<rparr>)"
proof (induction xs arbitrary: s)
  case Nil
  then show ?case by simp
next
  case (Cons x xs)
  have p: "push x s =
      (if int (length (buffer s)) + 1 < bufferSize s then Resolves True else Suspends,
       s\<lparr>buffer := buffer s @ [x],
         writeGate := (if int (length (buffer s) + 1) < bufferSize s then Open else Closed),
         readGate := Open\<rparr>)"
    using Cons.prems
    by (cases "writeGate s"; cases "readGate s")
       (auto simp: push_def isWritable_def updateWriteGate_def isFull_def gate_defs Let_def)
  show ?case
    by (simp add: p Cons.IH Gate_isLocked_def map_upt_Suc del: upt_Suc)
qed

lemma pushes_fresh:
  "pushes xs (fresh n) =
     (map (\<lambda>k. if int (Suc k) < n then Resolves True else Suspends) [0..<length xs],
      if xs = [] then fresh n
      else (fresh n)\<lparr>buffer := xs,
             writeGate := (if int (length xs) < n then Open else Closed),
             readGate := Open\<rparr>)"
  using pushes_unlocked [of "fresh n" xs]
  by (simp add: fresh_def Gate_isLocked_def Gate_close_def)

text \<open>
  C1, as stated, fails: with \<open>bufferSize = 2\<close> the second \<^verbatim>\<open>push\<close> is within the buffer
  size and made before any read, but its promise does not resolve: the push that fills the
  buffer closes the write gate and waits on it.
\<close>

theorem push_filling_buffer_blocks:
  "new_PushBuffer 2 = (Inr (fresh 2) :: err + int PushBuffer) \<and>
   int (length [Val (1::int), Val 2]) \<le> 2 \<and>
   fst (pushes [Val (1::int), Val 2] (fresh 2)) = [Resolves True, Suspends] \<and>
   fst (pushes [Val (1::int), Val 2] (fresh 2)) ! 1 \<noteq> Resolves True"
  by (simp add: new_PushBuffer_def isSafeInteger_def fresh_def push_def isWritable_def
      updateWriteGate_def isFull_def gate_defs Let_def)

text \<open>
  C1, amended.  For every sequence of \<^verbatim>\<open>push\<close> calls made on a new buffer before any read,
  every pushed item stays in the buffer, in order, and the \<open>k\<close>-th push resolves true
  exactly when \<open>k < bufferSize\<close>: the push that makes the buffer full, and every push after
  it (the \<open>(bufferSize+1)\<close>-th too, which is appended all the same) returns a promise that
  does not resolve.  As long as \<open>bufferSize\<close> or more items are buffered and nothing is
  read the write gate stays closed; after exactly \<open>bufferSize\<close> pushes, the first read
  takes the write gate out of the closed state, which resolves the pending promise.
\<close>

theorem pushes_before_any_read:
  assumes "new_PushBuffer n = Inr b"
  shows "buffer (snd (pushes xs b)) = xs \<and>
     length (fst (pushes xs b)) = length xs \<and>
     (\<forall>k < length xs. fst (pushes xs b) ! k =
          (if int (Suc k) < n then Resolves True else Suspends)) \<and>
     (n \<le> int (length xs) \<longrightarrow> Gate_check (writeGate (snd (pushes xs b))) = Suspends) \<and>
     (int (length xs) = n \<longrightarrow>
        Gate_check (writeGate (next' (snd (pushes xs b)))) \<noteq> Suspends)"
proof -
  from assms have b: "b = fresh n" and n: "0 < n"
    by (simp_all add: new_PushBuffer_Inr)
  have items: "buffer (snd (pushes xs (fresh n))) = xs"
    by (simp add: pushes_fresh) (simp add: fresh_def)
  have len: "length (fst (pushes xs (fresh n))) = length xs"
    by (simp add: pushes_fresh)
  have res: "\<forall>k < length xs. fst (pushes xs (fresh n)) ! k =
          (if int (Suc k) < n then Resolves True else Suspends)"
    by (simp add: pushes_fresh del: upt_Suc)
  have closed: "n \<le> int (length xs) \<longrightarrow>
      Gate_check (writeGate (snd (pushes xs (fresh n)))) = Suspends"
    using n unfolding pushes_fresh by (auto simp: Gate_check_def fresh_def Gate_close_def)
  have unblock: "int (length xs) = n \<longrightarrow>
        Gate_check (writeGate (next' (snd (pushes xs (fresh n))))) \<noteq> Suspends"
  proof
    assume l: "int (length xs) = n"
    then obtain x rest where xs: "xs = x # rest" using n by (cases xs) auto
    show "Gate_check (writeGate (next' (snd (pushes xs (fresh n))))) \<noteq> Suspends"
      using l unfolding xs pushes_fresh
      by (cases x)
         (simp_all add: fresh_def next'_def submit_def outer_loop_def inner_loop_def
            updateWriteGate_def isFull_def gate_defs Let_def complete_def settle_def
            finally_block_def lock_def)
  qed
  from items len res closed unblock show ?thesis unfolding b by blast
qed

text \<open>C1, a witness: three pushes into a buffer of size 2, then two pushes and a read.\<close>

theorem pushes_before_any_read_witness:
  "new_PushBuffer 2 = (Inr (fresh 2) :: err + int PushBuffer) \<and>
   buffer (snd (pushes [Val (1::int), Val 2, Val 3] (fresh 2))) = [Val 1, Val 2, Val 3] \<and>
   fst (pushes [Val (1::int), Val 2, Val 3] (fresh 2)) = [Resolves True, Suspends, Suspends] \<and>
   Gate_check (writeGate (snd (pushes [Val (1::int), Val 2] (fresh 2)))) = Suspends \<and>
   Gate_check (writeGate (next' (snd (pushes [Val (1::int), Val 2] (fresh 2))))) \<noteq> Suspends"
proof -
  have h: "new_PushBuffer 2 = (Inr (fresh 2) :: err + int PushBuffer)"
    by (simp add: new_PushBuffer_def isSafeInteger_def)
  have t3: "fst (pushes [Val (1::int), Val 2, Val 3] (fresh 2)) =
      [Resolves True, Suspends, Suspends]"
    by (simp add: fresh_def push_def isWritable_def updateWriteGate_def isFull_def gate_defs
        Let_def)
  show ?thesis
    using h t3 pushes_before_any_read [OF h, of "[Val (1::int), Val 2, Val 3]"]
      pushes_before_any_read [OF h, of "[Val (1::int), Val 2]"]
    by simp
qed

subsection \<open>The bound on buffered items\<close>

lemma bounded_upd [simp]:
  "bounded n (s\<lparr>error := e\<rparr>) = bounded n s"
  "bounded n (s\<lparr>isIterating := b\<rparr>) = bounded n s"
  "bounded n (s\<lparr>iterator := g\<rparr>) = bounded n s"
  "bounded n (s\<lparr>queue := q\<rparr>) = bounded n s"
  "bounded n (s\<lparr>settled := rs\<rparr>) = bounded n s"
  "bounded n (s\<lparr>readGate := rg\<rparr>) = bounded n s"
  by (simp_all add: bounded_def)

lemma bounded_settle [simp]: "bounded n (settle r s) = bounded n s"
  by (simp add: settle_def)

lemma bounded_lock: "bounded n s \<Longrightarrow> bounded n (lock s)"
  by (simp add: bounded_def lock_def gate_defs)

lemma bounded_clear: "bounded n s \<Longrightarrow> bounded n (clear s)"
  by (simp add: bounded_def clear_def)

lemma bounded_complete: "bounded n s \<Longrightarrow> bounded n (complete r s)"
  by (simp add: bounded_def complete_def settle_def finally_block_def lock_def gate_defs)

lemma bounded_after_loop: "bounded n s \<Longrightarrow> bounded n (after_loop s)"
  by (simp add: after_loop_def bounded_complete split: option.splits)

lemma bounded_shift:
  "bounded n s \<Longrightarrow> buffer s \<noteq> [] \<Longrightarrow>
   bounded n (updateWriteGate (s\<lparr>buffer := tl (buffer s)\<rparr>))"
  by (cases "buffer s") (auto simp: bounded_def updateWriteGate_def isFull_def gate_defs)

lemma bounded_inner_loop: "bounded n s \<Longrightarrow> bounded n (inner_loop s)"
  unfolding inner_loop_def Let_def
  by (simp add: bounded_after_loop bounded_complete bounded_shift split: item.splits)

lemma bounded_outer_loop: "bounded n s \<Longrightarrow> bounded n (outer_loop s)"
  by (simp add: outer_loop_def bounded_inner_loop bounded_after_loop)

lemma bounded_process: "bounded n s \<Longrightarrow> bounded n (process r s)"
  by (cases r; cases "iterator s")
     (simp_all add: bounded_outer_loop bounded_inner_loop bounded_complete)

lemma bounded_submit: "bounded n s \<Longrightarrow> bounded n (submit r s)"
  by (simp add: submit_def bounded_process)

lemma bounded_drain: "bounded n s \<Longrightarrow> bounded n (drain rs s)"
  by (induction rs arbitrary: s) (simp_all add: bounded_process)

lemma bounded_resume: "bounded n s \<Longrightarrow> bounded n (resume s)"
  by (simp add: resume_def Let_def bounded_drain bounded_outer_loop)

lemma bounded_end: "bounded n s \<Longrightarrow> bounded n (end' e s)"
  by (cases e) (simp_all add: end'_def bounded_lock)

lemma bounded_endWrite: "bounded n s \<Longrightarrow> bounded n (endWrite e s)"
  by (simp add: endWrite_def Let_def bounded_def gate_defs)

lemma bounded_push:
  "bounded n s \<Longrightarrow> writeGate s \<noteq> Closed \<or> buffer s = [] \<Longrightarrow> bounded n (snd (push x s))"
  by (cases "writeGate s")
     (auto simp: push_def Let_def bounded_def isWritable_def updateWriteGate_def isFull_def
        gate_defs)

lemma bounded_step:
  "bounded n s \<Longrightarrow>
   (case e of Push x \<Rightarrow> writeGate s \<noteq> Closed \<or> buffer s = [] | _ \<Rightarrow> True) \<Longrightarrow>
   bounded n (step e s)"
  by (cases e)
     (simp_all add: bounded_push bounded_end bounded_endWrite bounded_clear bounded_lock
        bounded_submit bounded_resume next'_def return'_def throw'_def)

lemma bounded_run: "bounded n s \<Longrightarrow> awaited evs s \<Longrightarrow> bounded n (run evs s)"
  by (induction evs arbitrary: s) (simp_all add: run_def bounded_step)

lemma bounded_fresh: "0 < n \<Longrightarrow> bounded n (fresh n)"
  by (simp add: bounded_def fresh_def gate_defs)

text \<open>
  Awaiting gives the condition of \<open>awaited\<close>: a push whose promise resolves true leaves the
  write gate open, and no step other than a push closes a write gate that is open or
  locked.
\<close>

lemma push_resolved_open:
  "fst (push x s) = Resolves True \<Longrightarrow> writeGate (snd (push x s)) = Open"
  by (cases "writeGate s")
     (auto simp: push_def Let_def isWritable_def updateWriteGate_def gate_defs split: if_splits)

lemma unclosed_upd [simp]:
  "unclosed n (s\<lparr>error := e\<rparr>) = unclosed n s"
  "unclosed n (s\<lparr>isIterating := b\<rparr>) = unclosed n s"
  "unclosed n (s\<lparr>iterator := g\<rparr>) = unclosed n s"
  "unclosed n (s\<lparr>queue := q\<rparr>) = unclosed n s"
  "unclosed n (s\<lparr>settled := rs\<rparr>) = unclosed n s"
  "unclosed n (s\<lparr>readGate := rg\<rparr>) = unclosed n s"
  by (simp_all add: unclosed_def)

lemma unclosed_settle [simp]: "unclosed n (settle r s) = unclosed n s"
  by (simp add: settle_def)

lemma unclosed_complete: "unclosed n s \<Longrightarrow> unclosed n (complete r s)"
  using bounded_complete [of n s r]
  by (auto simp: unclosed_def complete_def settle_def finally_block_def lock_def gate_defs)

lemma unclosed_after_loop: "unclosed n s \<Longrightarrow> unclosed n (after_loop s)"
  by (simp add: after_loop_def unclosed_complete split: option.splits)

lemma unclosed_shift:
  "unclosed n s \<Longrightarrow> buffer s \<noteq> [] \<Longrightarrow>
   unclosed n (updateWriteGate (s\<lparr>buffer := tl (buffer s)\<rparr>))"
  unfolding unclosed_def
  by (cases "buffer s"; cases "writeGate s")
     (auto simp: bounded_def updateWriteGate_def isFull_def gate_defs)

lemma unclosed_inner_loop: "unclosed n s \<Longrightarrow> unclosed n (inner_loop s)"
  unfolding inner_loop_def Let_def
  by (simp add: unclosed_after_loop unclosed_complete unclosed_shift split: item.splits)

lemma unclosed_outer_loop: "unclosed n s \<Longrightarrow> unclosed n (outer_loop s)"
  by (simp add: outer_loop_def unclosed_inner_loop unclosed_after_loop)

lemma unclosed_process: "unclosed n s \<Longrightarrow> unclosed n (process r s)"
  by (cases r; cases "iterator s")
     (simp_all add: unclosed_outer_loop unclosed_inner_loop unclosed_complete)

lemma unclosed_drain: "unclosed n s \<Longrightarrow> unclosed n (drain rs s)"
  by (induction rs arbitrary: s) (simp_all add: unclosed_process)

lemma unclosed_submit: "unclosed n s \<Longrightarrow> unclosed n (submit r s)"
  by (simp add: submit_def unclosed_process)

lemma unclosed_resume: "unclosed n s \<Longrightarrow> unclosed n (resume s)"
  by (simp add: resume_def Let_def unclosed_drain unclosed_outer_loop)

lemma unclosed_lock: "unclosed n s \<Longrightarrow> unclosed n (lock s)"
  using bounded_lock [of n s]
  by (auto simp: unclosed_def lock_def gate_defs)

lemma unclosed_end: "unclosed n s \<Longrightarrow> unclosed n (end' e s)"
  by (cases e) (simp_all add: end'_def unclosed_lock)

lemma unclosed_endWrite: "unclosed n s \<Longrightarrow> unclosed n (endWrite e s)"
  using bounded_endWrite [of n s e]
  by (auto simp: unclosed_def endWrite_def Let_def gate_defs)

lemma unclosed_clear: "unclosed n s \<Longrightarrow> unclosed n (clear s)"
  using bounded_clear [of n s]
  by (auto simp: unclosed_def clear_def)

lemma unclosed_step:
  "unclosed n s \<Longrightarrow> \<forall>x. e \<noteq> Push x \<Longrightarrow> unclosed n (step e s)"
  by (cases e)
     (simp_all add: unclosed_end unclosed_endWrite unclosed_clear unclosed_lock
        unclosed_submit unclosed_resume next'_def return'_def throw'_def)

text \<open>
  C2, as stated, fails: \<^verbatim>\<open>push\<close> tests only that no gate is locked, never that the buffer
  is full.  Two pushes into a buffer of size 1, the second made without awaiting the first,
  leave a writable buffer that holds 2 items.
\<close>

theorem unawaited_push_exceeds_bufferSize:
  "new_PushBuffer 1 = (Inr (fresh 1) :: err + int PushBuffer) \<and>
   isWritable (run [Push (Val (1::int)), Push (Val 2)] (fresh 1)) \<and>
   length' (run [Push (Val (1::int)), Push (Val 2)] (fresh 1)) = 2 \<and>
   bufferSize (run [Push (Val (1::int)), Push (Val 2)] (fresh 1)) = 1"
  by (simp add: new_PushBuffer_def isSafeInteger_def run_def fresh_def push_def isWritable_def
      updateWriteGate_def isFull_def gate_defs length'_def Let_def)

text \<open>
  C2, amended.  In every state a buffer reaches through any interleaving of \<^verbatim>\<open>push\<close>,
  \<^verbatim>\<open>end\<close>, \<^verbatim>\<open>endWrite\<close>, \<^verbatim>\<open>clear\<close>, \<^verbatim>\<open>lock\<close>, \<^verbatim>\<open>next\<close>, \<^verbatim>\<open>return\<close>, \<^verbatim>\<open>throw\<close> and the generator
  resuming, the number of buffered items is at most \<open>bufferSize\<close> (writable or not),
  provided the producer awaits: every \<^verbatim>\<open>push\<close> is made into an empty buffer or when the
  write gate is not closed, that is, when the promise of the push before it has resolved.
\<close>

theorem awaited_pushes_stay_within_bufferSize:
  assumes "new_PushBuffer n = Inr b" and "awaited evs b"
  shows "int (length' (run evs b)) \<le> bufferSize (run evs b) \<and> bufferSize (run evs b) = n"
proof -
  from assms(1) have b: "b = fresh n" and n: "0 < n"
    by (simp_all add: new_PushBuffer_Inr)
  have "bounded n (run evs (fresh n))"
    using bounded_fresh [OF n] assms(2) unfolding b by (rule bounded_run)
  then show ?thesis
    unfolding b by (simp add: bounded_def length'_def)
qed

text \<open>C2, a witness: a producer and a consumer taking turns on a buffer of size 2.\<close>

theorem awaited_pushes_stay_within_bufferSize_witness:
  "new_PushBuffer 2 = (Inr (fresh 2) :: err + int PushBuffer) \<and>
   awaited [Push (Val (1::int)), Next, Push (Val 2), Push (Val 3), Next, Return] (fresh 2) \<and>
   int (length' (run [Push (Val (1::int)), Next, Push (Val 2), Push (Val 3), Next, Return]
                  (fresh 2))) \<le> 2"
proof -
  have h: "new_PushBuffer 2 = (Inr (fresh 2) :: err + int PushBuffer)"
    by (simp add: new_PushBuffer_def isSafeInteger_def)
  have a: "awaited [Push (Val (1::int)), Next, Push (Val 2), Push (Val 3), Next, Return] (fresh 2)"
    by (simp add: fresh_def push_def isWritable_def updateWriteGate_def isFull_def gate_defs
        Let_def next'_def submit_def outer_loop_def inner_loop_def settle_def)
  show ?thesis
    using h a awaited_pushes_stay_within_bufferSize [OF h a] by simp
qed

subsection \<open>The end of an iteration\<close>

lemma complete_fields [simp]:
  "iterator (complete r s) = Completed"
  "writeGate (complete r s) = Locked"
  "readGate (complete r s) = Locked"
  "buffer (complete r s) = []"
  "queue (complete r s) = queue s"
  "isIterating (complete r s) = isIterating s"
  "error (complete r s) = error s"
  "settled (complete r s) = settled s @ [r]"
  by (simp_all add: complete_def settle_def finally_block_def lock_def gate_defs)

lemma after_loop_fields [simp]:
  "iterator (after_loop s) = Completed"
  "writeGate (after_loop s) = Locked"
  "readGate (after_loop s) = Locked"
  "buffer (after_loop s) = []"
  "queue (after_loop s) = queue s"
  "isIterating (after_loop s) = isIterating s"
  "error (after_loop s) = None"
  by (simp_all add: after_loop_def split: option.splits)

lemma inner_loop_keeps [simp]:
  "queue (inner_loop s) = queue s"
  "isIterating (inner_loop s) = isIterating s"
  "iterator (inner_loop s) \<noteq> SuspendedStart"
  by (simp_all add: inner_loop_def Let_def updateWriteGate_def settle_def split: item.splits)

lemma outer_loop_keeps [simp]:
  "queue (outer_loop s) = queue s"
  "isIterating (outer_loop s) = isIterating s"
  "iterator (outer_loop s) \<noteq> SuspendedStart"
  by (simp_all add: outer_loop_def)

lemma inner_loop_completed:
  "iterator (inner_loop s) = Completed \<Longrightarrow>
   writeGate (inner_loop s) = Locked \<and> readGate (inner_loop s) = Locked \<and>
   buffer (inner_loop s) = []"
  by (auto simp: inner_loop_def Let_def updateWriteGate_def settle_def
      split: item.splits if_splits)

lemma outer_loop_completed:
  "iterator (outer_loop s) = Completed \<Longrightarrow>
   writeGate (outer_loop s) = Locked \<and> readGate (outer_loop s) = Locked \<and>
   buffer (outer_loop s) = []"
  by (auto simp: outer_loop_def inner_loop_completed split: if_splits)

lemma ended_upd [simp]:
  "ended (s\<lparr>queue := q\<rparr>) = ended s"
  "ended (s\<lparr>settled := rs\<rparr>) = ended s"
  by (simp_all add: ended_def)

lemma ended_process:
  "ended s \<Longrightarrow> iterator s \<noteq> AwaitingRead \<Longrightarrow>
   (iterator s = SuspendedStart \<and> r \<noteq> ReqNext \<longrightarrow> writeGate s = Locked) \<Longrightarrow>
   ended (process r s)"
  by (cases r; cases "iterator s")
     (auto simp: ended_def settle_def dest: inner_loop_completed outer_loop_completed)

lemma process_started:
  "iterator s \<noteq> SuspendedStart \<Longrightarrow> iterator (process r s) \<noteq> SuspendedStart"
  by (cases r; cases "iterator s") (auto simp: settle_def)

lemma ended_drain:
  "ended s \<Longrightarrow> iterator s \<noteq> SuspendedStart \<Longrightarrow> ended (drain rs s)"
proof (induction rs arbitrary: s)
  case Nil
  then show ?case by simp
next
  case (Cons r rs)
  show ?case
  proof (cases "iterator s = AwaitingRead")
    case True
    with Cons.prems show ?thesis by simp
  next
    case False
    have "ended (process r s)"
      using Cons.prems False by (simp add: ended_process)
    moreover have "iterator (process r s) \<noteq> SuspendedStart"
      using Cons.prems by (simp add: process_started)
    ultimately show ?thesis
      using False Cons.IH by simp
  qed
qed

lemma queue_idle_drain: "queue_idle (drain rs s)"
  by (induction rs arbitrary: s) (simp_all add: queue_idle_def)

lemma process_queue [simp]: "queue (process r s) = queue s"
  by (cases r; cases "iterator s") (simp_all add: settle_def)

lemma queue_idle_process:
  "queue_idle s \<Longrightarrow> iterator s \<noteq> AwaitingRead \<Longrightarrow> queue_idle (process r s)"
  by (simp add: queue_idle_def)

lemma ended_submit:
  "ended s \<Longrightarrow> (iterator s = SuspendedStart \<and> r \<noteq> ReqNext \<longrightarrow> writeGate s = Locked) \<Longrightarrow>
   ended (submit r s)"
  by (simp add: submit_def ended_process)

lemma queue_idle_submit: "queue_idle s \<Longrightarrow> queue_idle (submit r s)"
  by (simp add: submit_def queue_idle_process) (simp add: queue_idle_def)

lemma ended_outer_loop: "iterator s = AwaitingRead \<Longrightarrow> ended (outer_loop s)"
  by (auto simp: ended_def dest: outer_loop_completed)

lemma ended_resume: "ended s \<Longrightarrow> ended (resume s)"
  by (simp add: resume_def Let_def ended_drain ended_outer_loop)

lemma queue_idle_resume: "queue_idle s \<Longrightarrow> queue_idle (resume s)"
  by (simp add: resume_def Let_def queue_idle_drain)

lemma ended_lock: "ended s \<Longrightarrow> ended (lock s)"
  by (simp add: ended_def lock_def gate_defs)

lemma ended_end: "ended s \<Longrightarrow> ended (end' e s)"
  by (cases e) (simp_all add: ended_def end'_def lock_def gate_defs)

lemma ended_endWrite: "ended s \<Longrightarrow> ended (endWrite e s)"
  by (auto simp: ended_def endWrite_def Let_def gate_defs)

lemma end_fields [simp]:
  "writeGate (end' e s) = Locked" "readGate (end' e s) = Locked"
  "queue (end' e s) = queue s" "iterator (end' e s) = iterator s"
  "buffer (end' e s) = buffer s" "settled (end' e s) = settled s"
  "isIterating (end' e s) = isIterating s"
  by (cases e; simp add: end'_def lock_def gate_defs)+

lemma endWrite_fields [simp]:
  "writeGate (endWrite e s) = Locked" "readGate (endWrite e s) = Gate_open (readGate s)"
  "queue (endWrite e s) = queue s" "iterator (endWrite e s) = iterator s"
  "buffer (endWrite e s) = buffer s" "settled (endWrite e s) = settled s"
  "isIterating (endWrite e s) = isIterating s"
  by (simp_all add: endWrite_def Let_def gate_defs)

lemma ended_return: "ended s \<Longrightarrow> ended (return' s)"
  by (simp add: return'_def ended_submit ended_end)

lemma ended_throw: "ended s \<Longrightarrow> ended (throw' e s)"
  by (simp add: throw'_def ended_submit ended_endWrite)

lemma queue_idle_end: "queue_idle s \<Longrightarrow> queue_idle (end' e s)"
  by (simp add: queue_idle_def)

lemma queue_idle_endWrite: "queue_idle s \<Longrightarrow> queue_idle (endWrite e s)"
  by (simp add: queue_idle_def)

lemma ended_clear: "ended s \<Longrightarrow> ended (clear s)"
  by (simp add: ended_def clear_def)

lemma ended_push: "ended s \<Longrightarrow> ended (snd (push x s))"
  by (auto simp: ended_def push_def Let_def isWritable_def updateWriteGate_def gate_defs)

lemma ended_step: "ended s \<Longrightarrow> ended (step e s)"
  by (cases e)
     (simp_all add: ended_push ended_end ended_endWrite ended_clear ended_lock ended_resume
        ended_submit ended_return ended_throw next'_def)

lemma queue_idle_step: "queue_idle s \<Longrightarrow> queue_idle (step e s)"
  by (cases e)
     (simp_all add: queue_idle_submit queue_idle_resume queue_idle_end queue_idle_endWrite
        next'_def return'_def throw'_def,
      auto simp: queue_idle_def push_def Let_def updateWriteGate_def lock_def clear_def)

lemma ended_run: "ended s \<Longrightarrow> ended (run evs s)"
  by (induction evs arbitrary: s) (simp_all add: run_def ended_step)

lemma queue_idle_run: "queue_idle s \<Longrightarrow> queue_idle (run evs s)"
  by (induction evs arbitrary: s) (simp_all add: run_def queue_idle_step)

lemma fresh_ended: "ended (fresh n)" "queue_idle (fresh n)"
  by (simp_all add: ended_def queue_idle_def fresh_def)

text \<open>
  C10, as stated, fails for an iteration that is ended before it began.  \<^verbatim>\<open>return()\<close> and
  \<^verbatim>\<open>throw()\<close> complete a generator that has not started without running its body, so the
  \<^verbatim>\<open>finally\<close> block of \<^verbatim>\<open>iterate()\<close> never runs: after \<^verbatim>\<open>push(1); return()\<close> the iteration is
  over (every \<^verbatim>\<open>next()\<close> gives done) and the item is still in the buffer; after \<^verbatim>\<open>throw(e)\<close>
  on a new buffer the iteration is over and the read gate is open, so \<^verbatim>\<open>isDone()\<close> is false.
\<close>

theorem end_before_start_skips_finally:
  "new_PushBuffer 2 = (Inr (fresh 2) :: err + int PushBuffer) \<and>
   iterator (run [Push (Val (1::int)), Return] (fresh 2)) = Completed \<and>
   settled (run [Push (Val (1::int)), Return, Next] (fresh 2)) = [Finished, Finished] \<and>
   length' (run [Push (Val (1::int)), Return] (fresh 2)) = 1 \<and>
   iterator (run [Throw (JsError ''stop'')] (fresh 2 :: int PushBuffer)) = Completed \<and>
   \<not> isDone (run [Throw (JsError ''stop'')] (fresh 2 :: int PushBuffer))"
  by (simp add: new_PushBuffer_def isSafeInteger_def run_def fresh_def push_def isWritable_def
      updateWriteGate_def isFull_def gate_defs length'_def Let_def return'_def throw'_def
      end'_def endWrite_def lock_def submit_def settle_def next'_def isDone_def)

text \<open>
  C10, amended.  In every state a buffer reaches through any interleaving of its methods in
  which the iteration is over, every \<^verbatim>\<open>push()\<close> returns false without appending; and if the
  iteration had begun (the body of \<^verbatim>\<open>iterate()\<close> has run, \<open>isIterating\<close> is set) then,
  whatever ended it, both gates are locked and the buffer is empty: \<^verbatim>\<open>isDone()\<close> is true
  and \<^verbatim>\<open>length\<close> is 0.
\<close>

theorem terminated_iteration_is_done:
  assumes "new_PushBuffer n = Inr b" and "iterator (run evs b) = Completed"
  shows "push x (run evs b) = (Resolves False, run evs b) \<and>
         (isIterating (run evs b) \<longrightarrow> isDone (run evs b) \<and> length' (run evs b) = 0)"
proof -
  have "ended (run evs b)"
    using assms(1) by (auto dest!: new_PushBuffer_Inr intro: ended_run fresh_ended)
  with assms(2) show ?thesis
    by (simp add: ended_def push_def isWritable_def isDone_def length'_def gate_defs)
qed

text \<open>C10, a witness: two items pushed, one read, then \<^verbatim>\<open>return()\<close>.\<close>

theorem terminated_iteration_is_done_witness:
  "new_PushBuffer 2 = (Inr (fresh 2) :: err + int PushBuffer) \<and>
   iterator (run [Push (Val (1::int)), Push (Val 2), Next, Return] (fresh 2)) = Completed \<and>
   isIterating (run [Push (Val (1::int)), Push (Val 2), Next, Return] (fresh 2)) \<and>
   isDone (run [Push (Val (1::int)), Push (Val 2), Next, Return] (fresh 2)) \<and>
   length' (run [Push (Val (1::int)), Push (Val 2), Next, Return] (fresh 2)) = 0 \<and>
   fst (push (Val 3) (run [Push (Val (1::int)), Push (Val 2), Next, Return] (fresh 2))) =
     Resolves False"
proof -
  have n: "new_PushBuffer 2 = (Inr (fresh 2) :: err + int PushBuffer)"
    by (simp add: new_PushBuffer_def isSafeInteger_def)
  have r: "run [Push (Val (1::int)), Push (Val 2), Next, Return] (fresh 2) =
      \<lparr>buffer = [], bufferSize = 2, writeGate = Locked, readGate = Locked, error = None,
       isIterating = True, iterator = Completed, queue = [],
       settled = [Yielded 1, Finished]\<rparr>"
    by (simp add: run_def fresh_def push_def isWritable_def updateWriteGate_def isFull_def
        gate_defs Let_def return'_def end'_def lock_def submit_def settle_def next'_def
        outer_loop_def inner_loop_def complete_def finally_block_def)
  have c: "iterator (run [Push (Val (1::int)), Push (Val 2), Next, Return] (fresh 2)) = Completed"
    by (simp add: r)
  show ?thesis
    using n c terminated_iteration_is_done [OF n c, of "Val 3"] by (simp add: r)
qed

subsection \<open>Ending with an error\<close>

lemma process_completed:
  "iterator s = Completed \<Longrightarrow> process r s = settle (after_completion r) s"
  by (cases r) (simp_all add: after_completion_def)

lemma drain_completed:
  "iterator s = Completed \<Longrightarrow>
   drain rs s = s\<lparr>queue := [], settled := settled s @ map after_completion rs\<rparr>"
  by (induction rs arbitrary: s) (simp_all add: process_completed settle_def)

lemma read_completed:
  "iterator s = Completed \<Longrightarrow> read s = s\<lparr>settled := settled s @ [Finished]\<rparr>"
  by (simp add: read_def next'_def submit_def settle_def)

lemma reads_completed:
  "iterator s = Completed \<Longrightarrow>
   (read ^^ k) s = s\<lparr>settled := settled s @ replicate k Finished\<rparr>"
proof (induction k)
  case 0
  then show ?case by simp
next
  case (Suc k)
  then show ?case by (simp add: read_completed replicate_append_same)
qed

text \<open>On a completed generator \<^verbatim>\<open>end(err)\<close> changes nothing a read can see.\<close>

lemma end_after_completion:
  "iterator s = Completed \<Longrightarrow>
   settled ((read ^^ k) (end' e s)) = settled s @ replicate k Finished"
  by (simp add: reads_completed)

lemma after_loop_settled:
  "settled (after_loop s) =
     settled s @ [case error s of Some e \<Rightarrow> Thrown e | None \<Rightarrow> Finished]"
  by (simp add: after_loop_def split: option.splits)

lemma outer_loop_locked: "readGate s = Locked \<Longrightarrow> outer_loop s = after_loop s"
  by (simp add: outer_loop_def gate_defs)

lemma inner_loop_locked:
  "readGate s = Locked \<Longrightarrow> writeGate s = Locked \<Longrightarrow> inner_loop s = after_loop s"
  by (simp add: inner_loop_def isDone_def gate_defs)

lemma end_error [simp]: "error (end' (Some e) s) = Some e"
  by (simp add: end'_def lock_def)

lemma read_after_end:
  assumes "queue_idle s" and "iterator s \<noteq> Completed"
  shows "iterator (read (end' (Some e) s)) = Completed \<and>
         settled (read (end' (Some e) s)) =
           settled s @ Thrown e # map after_completion (queue s) \<and>
         buffer (read (end' (Some e) s)) = [] \<and>
         error (read (end' (Some e) s)) = None"
proof (cases "iterator s")
  case SuspendedStart
  then have q: "queue s = []"
    using assms(1) by (simp add: queue_idle_def)
  have "read (end' (Some e) s) = after_loop ((end' (Some e) s)\<lparr>isIterating := True\<rparr>)"
    using SuspendedStart by (simp add: read_def next'_def submit_def outer_loop_locked)
  then show ?thesis by (simp add: after_loop_settled q)
next
  case SuspendedYield
  then have q: "queue s = []"
    using assms(1) by (simp add: queue_idle_def)
  have "read (end' (Some e) s) = after_loop (end' (Some e) s)"
    using SuspendedYield by (simp add: read_def next'_def submit_def inner_loop_locked)
  then show ?thesis by (simp add: after_loop_settled q)
next
  case AwaitingRead
  have "read (end' (Some e) s) = drain (queue s) (after_loop (end' (Some e) s))"
    using AwaitingRead by (simp add: read_def resume_def Let_def outer_loop_locked)
  then show ?thesis by (simp add: drain_completed after_loop_settled)
next
  case Completed
  with assms(2) show ?thesis by simp
qed

text \<open>
  C3, as stated, fails for a buffer whose iteration is already over: there \<^verbatim>\<open>end(err)\<close>
  stores the error, but the completed generator never looks at it.  After
  \<^verbatim>\<open>endWrite(); next()\<close> the iteration is complete; \<^verbatim>\<open>end(err)\<close> followed by two reads gives
  done twice, so \<open>err\<close> is thrown by no read.
\<close>

theorem end_after_completion_never_throws:
  "new_PushBuffer 2 = (Inr (fresh 2) :: err + int PushBuffer) \<and>
   settled (run [EndWrite None, Next] (fresh 2 :: int PushBuffer)) = [Finished] \<and>
   settled (run [EndWrite None, Next, End (Some (JsError ''boom'')), Next, Next]
              (fresh 2 :: int PushBuffer)) = [Finished, Finished, Finished]"
  by (simp add: new_PushBuffer_def isSafeInteger_def run_def fresh_def updateWriteGate_def
      isFull_def gate_defs Let_def end'_def endWrite_def lock_def submit_def settle_def
      next'_def isDone_def outer_loop_def inner_loop_def after_loop_def complete_def
      finally_block_def)

text \<open>
  C3, amended.  For every buffer, in any state it reaches, whose iteration is not already
  over, and every error \<open>err\<close>: after \<^verbatim>\<open>end(err)\<close> the next read attempt (the pending
  \<^verbatim>\<open>next()\<close> if the generator waits at the read gate, a new \<^verbatim>\<open>next()\<close> otherwise) throws
  \<open>err\<close>; the requests that were queued behind it settle as on a completed generator, every
  later read gives done, no item is yielded any more, the buffer is emptied and the stored
  error is cleared.
\<close>

theorem end_error_thrown_once:
  assumes "new_PushBuffer n = Inr b" and "iterator (run evs b) \<noteq> Completed"
  shows "settled ((read ^^ Suc k) (end' (Some e) (run evs b))) =
           settled (run evs b) @ Thrown e # map after_completion (queue (run evs b))
             @ replicate k Finished \<and>
         buffer ((read ^^ Suc k) (end' (Some e) (run evs b))) = [] \<and>
         error ((read ^^ Suc k) (end' (Some e) (run evs b))) = None"
proof -
  let ?s = "run evs b"
  have q: "queue_idle ?s"
    using assms(1) by (auto dest!: new_PushBuffer_Inr intro: queue_idle_run fresh_ended)
  note r = read_after_end [OF q assms(2), of e]
  have "(read ^^ Suc k) (end' (Some e) ?s) = (read ^^ k) (read (end' (Some e) ?s))"
    by (simp add: funpow_swap1)
  also have "\<dots> = (read (end' (Some e) ?s))\<lparr>settled :=
       settled (read (end' (Some e) ?s)) @ replicate k Finished\<rparr>"
    using r by (simp add: reads_completed)
  finally show ?thesis
    using r by simp
qed

text \<open>C3, a witness: two items pushed, one read, \<^verbatim>\<open>end(boom)\<close>, three reads.\<close>

theorem end_error_thrown_once_witness:
  "new_PushBuffer 2 = (Inr (fresh 2) :: err + int PushBuffer) \<and>
   iterator (run [Push (Val 1), Push (Val 2), Next] (fresh 2 :: int PushBuffer)) \<noteq> Completed \<and>
   settled ((read ^^ 3) (end' (Some (JsError ''boom''))
       (run [Push (Val 1), Push (Val 2), Next] (fresh 2 :: int PushBuffer)))) =
     [Yielded 1, Thrown (JsError ''boom''), Finished, Finished]"
proof -
  have n: "new_PushBuffer 2 = (Inr (fresh 2) :: err + int PushBuffer)"
    by (simp add: new_PushBuffer_def isSafeInteger_def)
  have r: "run [Push (Val 1), Push (Val 2), Next] (fresh 2 :: int PushBuffer) =
      \<lparr>buffer = [Val 2], bufferSize = 2, writeGate = Open, readGate = Open, error = None,
       isIterating = True, iterator = SuspendedYield, queue = [], settled = [Yielded 1]\<rparr>"
    by (simp add: run_def fresh_def push_def isWritable_def updateWriteGate_def isFull_def
        gate_defs Let_def submit_def settle_def next'_def outer_loop_def inner_loop_def)
  have c: "iterator (run [Push (Val 1), Push (Val 2), Next] (fresh 2 :: int PushBuffer))
      \<noteq> Completed"
    by (simp add: r)
  have three: "(3::nat) = Suc 2"
    by simp
  show ?thesis
    using n c end_error_thrown_once [OF n c, of 2 "JsError ''boom''"]
    unfolding three by (simp add: r numeral_2_eq_2)
qed

subsection \<open>Starting a second iteration\<close>

text \<open>
  C7 (code bug).  Once a buffer is iterating, \<^verbatim>\<open>[Symbol.asyncIterator]()\<close> and \<^verbatim>\<open>collect()\<close>
  do fail, but not with the error they mean to raise: \<^verbatim>\<open>this.constructor.Error\<close> does not
  exist on the class, so building the error is itself a TypeError of the runtime.  On a new
  buffer of size 2, after a first \<^verbatim>\<open>next()\<close>:
\<close>

theorem double_iteration_raises_TypeError:
  "new_PushBuffer 2 = (Inr (fresh 2) :: err + int PushBuffer) \<and>
   isIterating (next' (fresh 2 :: int PushBuffer)) \<and>
   asyncIterator (next' (fresh 2 :: int PushBuffer)) =
     Inl (TypeError ''this.constructor.Error is not a constructor'') \<and>
   collect (next' (fresh 2 :: int PushBuffer)) =
     Inl (TypeError ''this.constructor.Error is not a constructor'')"
  by (simp add: new_PushBuffer_def isSafeInteger_def fresh_def next'_def submit_def
      outer_loop_def inner_loop_def isDone_def gate_defs asyncIterator_def collect_def
      new_constructor_Error_def PushBuffer_Error_def)

text \<open>
  The Pipeline does raise its own error there: a StreamrClientError with the code
  \<^verbatim>\<open>PIPELINE_ERROR\<close>.
\<close>

lemma Pipeline_double_iteration:
  "pipeline_isIterating p \<Longrightarrow>
   Pipeline_asyncIterator p = Inl (StreamrClientError ''already iterating'' ''PIPELINE_ERROR'')"
  by (simp add: Pipeline_asyncIterator_def)

subsection \<open>Errors of an upstream source\<close>

text \<open>
  C6 (code bug).  The method \<^verbatim>\<open>PushBuffer.pull\<close> drops an error of its source: a source that
  yields 1 and then throws leaves the buffer exactly as a source that yields 1 and ends
  does, with no error stored, and the consumer reads 1 and then done.  The function
  \<^verbatim>\<open>pull\<close> stores the error, and the consumer's second read throws it.
\<close>

theorem PushBuffer_pull_swallows_error:
  "PushBuffer_pull (SrcYield (Val 1) (SrcThrow (JsError ''boom''))) (fresh 2 :: int PushBuffer) =
     PushBuffer_pull (SrcYield (Val 1) SrcEnd) (fresh 2) \<and>
   error (snd (PushBuffer_pull (SrcYield (Val 1) (SrcThrow (JsError ''boom'')))
                 (fresh 2 :: int PushBuffer))) = None \<and>
   settled ((read ^^ 2) (snd (PushBuffer_pull (SrcYield (Val 1) (SrcThrow (JsError ''boom'')))
                 (fresh 2 :: int PushBuffer)))) = [Yielded 1, Finished] \<and>
   settled ((read ^^ 2) (snd (pull_loop (SrcYield (Val 1) (SrcThrow (JsError ''boom'')))
                 (fresh 2 :: int PushBuffer)))) = [Yielded 1, Thrown (JsError ''boom'')]"
  by (simp add: fresh_def push_def isWritable_def updateWriteGate_def isFull_def gate_defs
      Let_def endWrite_def read_def next'_def submit_def outer_loop_def inner_loop_def
      settle_def after_loop_def complete_def finally_block_def lock_def isDone_def
      numeral_2_eq_2)

text \<open>In general the method cannot tell a source that throws from one that ends.\<close>

lemma PushBuffer_pull_throw_is_end: "PushBuffer_pull (SrcThrow e) s = PushBuffer_pull SrcEnd s"
  by simp

section \<open>Properties of Pipeline\<close>

subsection \<open>Order of composition\<close>

lemma pipings_before_iterating:
  "\<not> pipeline_isIterating p \<Longrightarrow>
   pipings cs p =
     Inr (p\<lparr>pipeline_definition := (pipeline_definition p)
            \<lparr>transforms := transforms (pipeline_definition p) @ stages cs,
             transformsBefore := transformsBefore (pipeline_definition p) @ stagesBefore cs\<rparr>\<rparr>)"
proof (induction cs arbitrary: p)
  case Nil
  then show ?case by simp
next
  case (Cons c cs)
  then show ?case
    by (cases c) (simp_all add: Pipeline_pipe_def Pipeline_pipeBefore_def pipe_def pipeBefore_def)
qed

text \<open>
  C5.  For every pipeline that is not yet iterating and every sequence of \<^verbatim>\<open>pipe\<close> and
  \<^verbatim>\<open>pipeBefore\<close> calls, in any interleaving, all calls succeed and the generator that
  \<^verbatim>\<open>iterate()\<close> composes is: the source, then the before-stages (those the definition
  already had, then those of the \<^verbatim>\<open>pipeBefore\<close> calls in call order), then the stages (those
  the definition already had, then those of the \<^verbatim>\<open>pipe\<close> calls in call order).  For a
  pipeline made from a source alone the definition has no stages of its own.
\<close>

theorem composition_order:
  assumes "\<not> pipeline_isIterating p" and "source (pipeline_definition p) = Some src"
  shows "\<exists>p'. pipings cs p = Inr p' \<and>
           getTransforms (pipeline_definition p') =
             (transformsBefore (pipeline_definition p) @ stagesBefore cs) @
             (transforms (pipeline_definition p) @ stages cs) \<and>
           fst (iterate_begin p') =
             Inr (foldl (\<lambda>prev transform. transform prev)
                    (foldl (\<lambda>prev transform. transform prev) src
                       (transformsBefore (pipeline_definition p) @ stagesBefore cs))
                    (transforms (pipeline_definition p) @ stages cs))"
  using assms
  by (simp add: pipings_before_iterating getTransforms_def iterate_begin_def Let_def)

text \<open>
  C5, a witness: on the source 5, \<^verbatim>\<open>pipe(+1)\<close>, \<^verbatim>\<open>pipeBefore(*2)\<close>, \<^verbatim>\<open>pipe(square)\<close>,
  \<^verbatim>\<open>pipeBefore(-3)\<close> compose to \<open>((5 * 2 - 3) + 1)\<^sup>2 = 64\<close>.
\<close>

theorem composition_order_witness:
  "new_Pipeline (Some (5::int)) None =
     Inr (fresh_Pipeline \<lparr>source = Some 5, transforms = [], transformsBefore = []\<rparr>) \<and>
   (\<exists>p'. pipings [Pipe (\<lambda>g. g + 1), PipeBefore (\<lambda>g. g * 2), Pipe (\<lambda>g. g * g),
                   PipeBefore (\<lambda>g. g - 3)]
             (fresh_Pipeline \<lparr>source = Some (5::int), transforms = [], transformsBefore = []\<rparr>)
           = Inr p' \<and>
          fst (iterate_begin p') = Inr 64)"
proof -
  let ?p = "fresh_Pipeline \<lparr>source = Some (5::int), transforms = [], transformsBefore = []\<rparr>"
  let ?cs = "[Pipe (\<lambda>g. g + 1), PipeBefore (\<lambda>g. g * 2), Pipe (\<lambda>g. g * g),
              PipeBefore (\<lambda>g::int. g - 3)]"
  have a: "\<not> pipeline_isIterating ?p"
    by (simp add: fresh_Pipeline_def)
  have b: "source (pipeline_definition ?p) = Some 5"
    by (simp add: fresh_Pipeline_def)
  have n: "new_Pipeline (Some (5::int)) None = Inr ?p"
    by (simp add: new_Pipeline_def new_PipelineDefinition_def)
  from composition_order [OF a b, of ?cs] obtain p'
    where p': "pipings ?cs ?p = Inr p'"
      and r: "fst (iterate_begin p') =
             Inr (foldl (\<lambda>prev transform. transform prev)
                    (foldl (\<lambda>prev transform. transform prev) 5
                       (transformsBefore (pipeline_definition ?p) @ stagesBefore ?cs))
                    (transforms (pipeline_definition ?p) @ stages ?cs))"
    by blast
  have "fst (iterate_begin p') = Inr 64"
    unfolding r by (simp add: fresh_Pipeline_def)
  with n p' show ?thesis by blast
qed

subsection \<open>Teardown happens once\<close>



lemma call_cleanup_eq:
  "call_cleanup e p = (if cleanup p = Init then cleanup_begin e (p\<lparr>cleanup := Pending\<rparr>) else p)"
  by (cases "cleanup p") (simp_all add: call_cleanup_def pOnceWrap_def)













lemma torn_suspended [simp]: "torn (p\<lparr>suspended := cs\<rparr>) = torn p"
  by (simp add: torn_def leaving_def)
































subsection \<open>Every teardown comes to its end\<close>








lemma winding_upd [simp]:
  "cleanup (p\<lparr>suspended := cs\<rparr>) = cleanup p"
  "leaving (p\<lparr>suspended := cs\<rparr>) = leaving p"
  by (simp_all add: leaving_def)









text \<open>The generator, on its way out, completes, and \<^verbatim>\<open>cleanup\<close> is called.\<close>

lemma suspended_call_cleanup [simp]: "suspended (call_cleanup e p) = suspended p"
  by (cases e) (simp_all add: call_cleanup_eq cleanup_begin_def Let_def)

lemma suspended_iterate_resumes [simp]: "suspended (iterate_resumes r p) = suspended p"
  by (cases "iterate_pc p")
     (simp_all add: iterate_resumes_def iterate_finally_def iterate_catch_def
        iterator_ends_def Let_def split: option.splits)



















section \<open>Properties of OrderingUtil\<close>

subsection \<open>The dictionary and the store\<close>

lemma map_of_assign: "map_of (assign key v d) = (map_of d)(key \<mapsto> v)"
  by (induction d) (auto simp: fun_eq_iff)

lemma map_of_Object_values: "map_of d key = Some v \<Longrightarrow> v \<in> set (Object_values d)"
  by (auto simp: Object_values_def dest!: map_of_SomeD intro: rev_image_eqI)

lemma invoke_fields [simp]:
  "orderedChains (invoke f r u) = orderedChains u"
  "allocated (invoke f r u) = allocated u"
  "maxGapRequests (invoke f r u) = maxGapRequests u"
  "propagationTimeout (invoke f r u) = propagationTimeout u"
  "resendTimeout (invoke f r u) = resendTimeout u"
  by (simp_all add: invoke_def)

lemma chains_invoke:
  "chains (invoke f r u) r' = (if r' = r then map_option f (chains u r) else chains u r')"
  by (simp add: invoke_def)

lemma fold_invoke_fields [simp]:
  "orderedChains (fold (invoke f) rs u) = orderedChains u"
  "allocated (fold (invoke f) rs u) = allocated u"
  "maxGapRequests (fold (invoke f) rs u) = maxGapRequests u"
  by (induction rs arbitrary: u) simp_all

text \<open>What a method keeps holds of an object after any number of calls of the method.\<close>

lemma chains_fold_invoke_keeps:
  assumes "\<And>c. P c \<Longrightarrow> P (f c)"
    and "\<forall>c. chains u r = Some c \<longrightarrow> P c"
  shows "\<forall>c. chains (fold (invoke f) rs u) r = Some c \<longrightarrow> P c"
  using assms(2)
proof (induction rs arbitrary: u)
  case Nil
  then show ?case by simp
next
  case (Cons a rs)
  have "\<forall>c. chains (invoke f a u) r = Some c \<longrightarrow> P c"
    using Cons.prems assms(1) by (auto simp: chains_invoke)
  from Cons.IH [OF this] show ?case by simp
qed

text \<open>What a method establishes holds of every object it was called on.\<close>

lemma chains_fold_invoke_makes:
  assumes "\<And>c. P (f c)" and "r \<in> set rs"
  shows "\<forall>c. chains (fold (invoke f) rs u) r = Some c \<longrightarrow> P c"
  using assms(2)
proof (induction rs arbitrary: u)
  case Nil
  then show ?case by simp
next
  case (Cons a rs)
  show ?case
  proof (cases "r = a")
    case True
    have "\<forall>c. chains (invoke f a u) r = Some c \<longrightarrow> P c"
      using True assms(1) by (auto simp: chains_invoke)
    from chains_fold_invoke_keeps [where P = P and f = f, OF _ this] assms(1)
    show ?thesis by simp
  next
    case False
    with Cons.prems have "r \<in> set rs" by simp
    from Cons.IH [OF this] show ?thesis by simp
  qed
qed

subsection \<open>Disabling\<close>

lemma disabled_invoke:
  assumes "disabled u" and "\<And>c. chain_maxGapRequests (f c) = chain_maxGapRequests c"
  shows "disabled (invoke f r u)"
  using assms
  by (auto simp: disabled_def chainOf_def chains_invoke split: option.splits if_splits)

lemma disabled_getChain:
  assumes "disabled u"
  shows "disabled (snd (getChain p c u))"
  using assms
  by (auto simp: disabled_def chainOf_def getChain_def Let_def map_of_assign
      new_OrderedMsgChain_def split: option.splits if_splits)

lemma disabled_add_like:
  assumes "disabled u"
  shows "disabled (add m u)" and "disabled (markMessageExplicitly m u)"
  using disabled_getChain [OF assms, of "getPublisherId m" "getMsgChainId m"]
  by (auto simp: add_def markMessageExplicitly_def split_beta Let_def
      chain_add_def chain_markMessageExplicitly_def intro!: disabled_invoke)

lemma disabled_fold_invoke:
  assumes "disabled u" and "\<And>c. chain_maxGapRequests (f c) = chain_maxGapRequests c"
  shows "disabled (fold (invoke f) rs u)"
  using assms(1)
  by (induction rs arbitrary: u) (simp_all add: disabled_invoke assms(2))

lemma disabled_disable: "disabled (disable u)"
  unfolding disabled_def
proof (intro conjI allI impI)
  show "maxGapRequests (disable u) = Some 0"
    by (simp add: disable_def Let_def)
next
  fix key c
  assume "chainOf (disable u) key = Some c"
  then obtain r where r: "map_of (orderedChains u) key = Some r"
      "chains (disable u) r = Some c"
    by (auto simp: chainOf_def disable_def Let_def split: option.splits)
  from r(1) have "r \<in> set (Object_values (orderedChains u))"
    by (rule map_of_Object_values)
  from chains_fold_invoke_makes [where P = "\<lambda>c. chain_maxGapRequests c = Some 0"
      and f = chain_disable, OF _ this, of "u\<lparr>maxGapRequests := Some 0\<rparr>"] r(2)
  show "chain_maxGapRequests c = Some 0"
    by (simp add: disable_def Let_def chain_disable_def)
qed

lemma disabled_step: "disabled u \<Longrightarrow> disabled (ordering_step c u)"
  by (cases c)
     (simp_all add: disabled_add_like disabled_disable clearGaps_def
        disabled_fold_invoke chain_clearGap_def)

lemma disabled_calls: "disabled u \<Longrightarrow> disabled (ordering_calls cs u)"
  by (induction cs arbitrary: u) (simp_all add: ordering_calls_def disabled_step)

text \<open>
  C8.  After \<^verbatim>\<open>disable()\<close>, whatever calls follow (\<^verbatim>\<open>add\<close>, \<^verbatim>\<open>markMessageExplicitly\<close>,
  \<^verbatim>\<open>clearGaps\<close>, \<^verbatim>\<open>disable\<close>), \<^verbatim>\<open>maxGapRequests\<close> is 0 for the multiplexer and for every chain
  it holds, those that existed when \<^verbatim>\<open>disable()\<close> was called and those created since; a
  chain that \<^verbatim>\<open>getChain\<close> creates next is constructed with \<^verbatim>\<open>maxGapRequests = 0\<close>; and with
  that bound no chain may request a resend, whatever the number of attempts made.
\<close>

theorem disable_sets_maxGapRequests_zero:
  "maxGapRequests (ordering_calls cs (disable u)) = Some 0 \<and>
   (\<forall>key c. chainOf (ordering_calls cs (disable u)) key = Some c \<longrightarrow>
      chain_maxGapRequests c = Some 0 \<and> (\<forall>n. \<not> gapRequestAllowed n c)) \<and>
   (\<forall>p c. map_of (orderedChains (ordering_calls cs (disable u))) (chainKey p c) = None \<longrightarrow>
      (case getChain p c (ordering_calls cs (disable u)) of
         (chain, u') \<Rightarrow> map_option chain_maxGapRequests (chains u' chain) = Some (Some 0)))"
proof -
  have d: "disabled (ordering_calls cs (disable u))"
    by (rule disabled_calls [OF disabled_disable])
  show ?thesis
  proof (intro conjI allI impI)
    show "maxGapRequests (ordering_calls cs (disable u)) = Some 0"
      using d by (simp add: disabled_def)
  next
    fix key c
    assume "chainOf (ordering_calls cs (disable u)) key = Some c"
    with d show "chain_maxGapRequests c = Some 0"
      by (auto simp: disabled_def)
    then show "\<not> gapRequestAllowed n c" for n
      by (simp add: gapRequestAllowed_def)
  next
    fix p c
    assume "map_of (orderedChains (ordering_calls cs (disable u))) (chainKey p c) = None"
    with d
    show "case getChain p c (ordering_calls cs (disable u)) of
         (chain, u') \<Rightarrow> map_option chain_maxGapRequests (chains u' chain) = Some (Some 0)"
      by (simp add: getChain_def Let_def new_OrderedMsgChain_def disabled_def)
  qed
qed

text \<open>
  C8, a witness: a chain made with \<^verbatim>\<open>maxGapRequests = 10\<close>, then \<^verbatim>\<open>disable()\<close>, then a
  message of another publisher.
\<close>

theorem disable_sets_maxGapRequests_zero_witness:
  "maxGapRequests (ordering_calls [Add msgB1]
      (disable (ordering_calls [Add msgA1] (new_OrderingUtil None None (Some 10))))) = Some 0 \<and>
   map_option chain_maxGapRequests
     (chainOf (ordering_calls [Add msgA1] (new_OrderingUtil None None (Some 10)))
        (chainKey publisherA ''c1'')) = Some (Some 10) \<and>
   map_option chain_maxGapRequests
     (chainOf (ordering_calls [Add msgB1]
        (disable (ordering_calls [Add msgA1] (new_OrderingUtil None None (Some 10)))))
        (chainKey publisherA ''c1'')) = Some (Some 0) \<and>
   map_option chain_maxGapRequests
     (chainOf (ordering_calls [Add msgB1]
        (disable (ordering_calls [Add msgA1] (new_OrderingUtil None None (Some 10)))))
        (chainKey publisherB ''c1'')) = Some (Some 0)"
proof -
  let ?u = "ordering_calls [Add msgA1] (new_OrderingUtil None None (Some 10))"
  let ?v = "ordering_calls [Add msgB1] (disable ?u)"
  have before: "map_option chain_maxGapRequests (chainOf ?u (chainKey publisherA ''c1''))
      = Some (Some 10)"
    by (simp add: ordering_calls_def add_def getChain_def new_OrderingUtil_def chainOf_def
        invoke_def new_OrderedMsgChain_def chain_add_def msgA1_def Let_def)
  have a: "chainOf ?v (chainKey publisherA ''c1'') \<noteq> None"
    by (simp add: ordering_calls_def add_def getChain_def new_OrderingUtil_def chainOf_def
        invoke_def Object_values_def new_OrderedMsgChain_def chain_add_def msgA1_def msgB1_def
        Let_def disable_def chainKey_def publisherA_def publisherB_def)
  have b: "chainOf ?v (chainKey publisherB ''c1'') \<noteq> None"
    by (simp add: ordering_calls_def add_def getChain_def new_OrderingUtil_def chainOf_def
        invoke_def Object_values_def new_OrderedMsgChain_def chain_add_def msgA1_def msgB1_def
        Let_def disable_def chainKey_def publisherA_def publisherB_def)
  show ?thesis
    using before a b disable_sets_maxGapRequests_zero [of "[Add msgB1]" ?u]
    by auto
qed

subsection \<open>Routing\<close>

text \<open>
  The key is a concatenation.  It determines the pair when the publisher ids are
  addresses, which all have the same length; two strings of different lengths could be
  completed to the same key.
\<close>

lemma chainKey_strings: "chainKey ''ab'' ''c'' = chainKey ''a'' ''bc''"
  by (simp add: chainKey_def)

lemma chainKey_inj:
  "isEthereumAddress p \<Longrightarrow> isEthereumAddress p' \<Longrightarrow>
   (chainKey p c = chainKey p' c') = (p = p' \<and> c = c')"
  by (simp add: chainKey_def isEthereumAddress_def)

lemma sorted_by_keyD:
  assumes "sorted_by_key ms u"
  shows "map_of (orderedChains u) key = None \<Longrightarrow> m \<in> set ms \<Longrightarrow>
           chainKey (getPublisherId m) (getMsgChainId m) \<noteq> key"
    and "map_of (orderedChains u) key = Some chain \<Longrightarrow> chain < allocated u"
    and "map_of (orderedChains u) key = Some chain \<Longrightarrow>
           \<exists>c. chains u chain = Some c \<and> sorted_chain ms key c"
    and "chains u chain = Some c \<Longrightarrow>
           map_of (orderedChains u) (chainKey (chain_publisherId c) (chain_msgChainId c)) =
             Some chain"
proof -
  from assms have k: "case map_of (orderedChains u) key of
         None \<Rightarrow> \<forall>m \<in> set ms. chainKey (getPublisherId m) (getMsgChainId m) \<noteq> key
       | Some chain \<Rightarrow>
           chain < allocated u \<and> (\<exists>c. chains u chain = Some c \<and> sorted_chain ms key c)"
    by (simp add: sorted_by_key_def)
  from k show "map_of (orderedChains u) key = None \<Longrightarrow> m \<in> set ms \<Longrightarrow>
           chainKey (getPublisherId m) (getMsgChainId m) \<noteq> key"
    by simp
  from k show "map_of (orderedChains u) key = Some chain \<Longrightarrow> chain < allocated u"
    by simp
  from k show "map_of (orderedChains u) key = Some chain \<Longrightarrow>
           \<exists>c. chains u chain = Some c \<and> sorted_chain ms key c"
    by simp
  from assms show "chains u chain = Some c \<Longrightarrow>
           map_of (orderedChains u) (chainKey (chain_publisherId c) (chain_msgChainId c)) =
             Some chain"
    by (simp add: sorted_by_key_def)
qed

lemma sorted_by_keyI:
  assumes "\<And>key m. map_of (orderedChains u) key = None \<Longrightarrow> m \<in> set ms \<Longrightarrow>
           chainKey (getPublisherId m) (getMsgChainId m) \<noteq> key"
    and "\<And>key chain. map_of (orderedChains u) key = Some chain \<Longrightarrow> chain < allocated u"
    and "\<And>key chain. map_of (orderedChains u) key = Some chain \<Longrightarrow>
           \<exists>c. chains u chain = Some c \<and> sorted_chain ms key c"
    and "\<And>chain c. chains u chain = Some c \<Longrightarrow>
           map_of (orderedChains u) (chainKey (chain_publisherId c) (chain_msgChainId c)) =
             Some chain"
  shows "sorted_by_key ms u"
  unfolding sorted_by_key_def
proof (intro conjI allI impI)
  fix key
  show "case map_of (orderedChains u) key of
         None \<Rightarrow> \<forall>m \<in> set ms. chainKey (getPublisherId m) (getMsgChainId m) \<noteq> key
       | Some chain \<Rightarrow>
           chain < allocated u \<and> (\<exists>c. chains u chain = Some c \<and> sorted_chain ms key c)"
    using assms(1-3) [of key] by (cases "map_of (orderedChains u) key") auto
next
  fix chain c
  assume "chains u chain = Some c"
  then show "map_of (orderedChains u) (chainKey (chain_publisherId c) (chain_msgChainId c)) =
           Some chain"
    by (rule assms(4))
qed

text \<open>A message that belongs to a chain is appended; any other message leaves it sorted.\<close>

lemma sorted_chain_append_own:
  assumes "sorted_chain ms key c" and "isEthereumAddress (getPublisherId m)"
    and "chainKey (getPublisherId m) (getMsgChainId m) = key"
    and "chain_publisherId c' = chain_publisherId c" "chain_msgChainId c' = chain_msgChainId c"
    and "chain_received c' = chain_received c @ [m]"
  shows "sorted_chain (ms @ [m]) key c'"
proof -
  from assms(1) have c: "isEthereumAddress (chain_publisherId c)"
      "key = chainKey (chain_publisherId c) (chain_msgChainId c)"
      "chain_received c =
        filter (\<lambda>m. (getPublisherId m, getMsgChainId m) =
                     (chain_publisherId c, chain_msgChainId c)) ms"
    by (simp_all add: sorted_chain_def)
  from c(2) assms(3)
  have "chainKey (getPublisherId m) (getMsgChainId m) =
          chainKey (chain_publisherId c) (chain_msgChainId c)"
    by simp
  with assms(2) c(1)
  have "getPublisherId m = chain_publisherId c \<and> getMsgChainId m = chain_msgChainId c"
    by (simp add: chainKey_inj)
  with c assms(4-6) show ?thesis
    by (simp add: sorted_chain_def)
qed

lemma sorted_chain_append_other:
  assumes "sorted_chain ms key c"
    and "chainKey (getPublisherId m) (getMsgChainId m) \<noteq> key"
  shows "sorted_chain (ms @ [m]) key c"
proof -
  from assms have "(getPublisherId m, getMsgChainId m) \<noteq>
      (chain_publisherId c, chain_msgChainId c)"
    by (auto simp: sorted_chain_def)
  with assms(1) show ?thesis
    by (auto simp: sorted_chain_def)
qed

lemma sorted_chain_first:
  assumes "\<And>m'. m' \<in> set ms \<Longrightarrow>
      chainKey (getPublisherId m') (getMsgChainId m') \<noteq>
      chainKey (getPublisherId m) (getMsgChainId m)"
    and "isEthereumAddress (getPublisherId m)"
    and "chain_publisherId c = getPublisherId m" "chain_msgChainId c = getMsgChainId m"
    and "chain_received c = [m]"
  shows "sorted_chain (ms @ [m]) (chainKey (getPublisherId m) (getMsgChainId m)) c"
proof -
  have "filter (\<lambda>m'. (getPublisherId m', getMsgChainId m') =
                     (getPublisherId m, getMsgChainId m)) ms = []"
    using assms(1) by (fastforce simp: filter_empty_conv)
  with assms(2-5) show ?thesis
    by (simp add: sorted_chain_def)
qed

lemma sorted_by_key_add:
  assumes s: "sorted_by_key ms u" and a: "isEthereumAddress (getPublisherId m)"
  shows "sorted_by_key (ms @ [m]) (add m u)"
proof (cases "map_of (orderedChains u) (chainKey (getPublisherId m) (getMsgChainId m))")
  case None
  let ?k = "chainKey (getPublisherId m) (getMsgChainId m)"
  let ?c = "chain_add m (new_OrderedMsgChain (getPublisherId m) (getMsgChainId m)
              (propagationTimeout u) (resendTimeout u) (maxGapRequests u))"
  have free: "chains u (allocated u) = None"
  proof (cases "chains u (allocated u)")
    case (Some c)
    from sorted_by_keyD(2) [OF s sorted_by_keyD(4) [OF s Some]] show ?thesis by simp
  qed simp
  have oc: "map_of (orderedChains (add m u)) = (map_of (orderedChains u))(?k \<mapsto> allocated u)"
    and ch: "chains (add m u) = (chains u)(allocated u \<mapsto> ?c)"
    and al: "allocated (add m u) = Suc (allocated u)"
    using None by (simp_all add: add_def getChain_def Let_def invoke_def map_of_assign)
  have new: "sorted_chain (ms @ [m]) ?k ?c"
    using sorted_by_keyD(1) [OF s None] a
    by (intro sorted_chain_first) (simp_all add: chain_add_def new_OrderedMsgChain_def)
  show ?thesis
  proof (rule sorted_by_keyI)
    fix key m'
    assume "map_of (orderedChains (add m u)) key = None" and "m' \<in> set (ms @ [m])"
    then show "chainKey (getPublisherId m') (getMsgChainId m') \<noteq> key"
      using sorted_by_keyD(1) [OF s, of key m']
      by (auto simp: oc split: if_splits)
  next
    fix key chain
    assume "map_of (orderedChains (add m u)) key = Some chain"
    then show "chain < allocated (add m u)"
      using sorted_by_keyD(2) [OF s, of key chain]
      by (auto simp: oc al split: if_splits)
  next
    fix key chain
    assume k: "map_of (orderedChains (add m u)) key = Some chain"
    show "\<exists>c. chains (add m u) chain = Some c \<and> sorted_chain (ms @ [m]) key c"
    proof (cases "key = ?k")
      case True
      with k new show ?thesis by (simp add: oc ch)
    next
      case False
      with k have old: "map_of (orderedChains u) key = Some chain"
        by (simp add: oc)
      from sorted_by_keyD(2) [OF s old] have "chain \<noteq> allocated u" by simp
      moreover from sorted_by_keyD(3) [OF s old] obtain c where
        "chains u chain = Some c" "sorted_chain ms key c" by blast
      ultimately show ?thesis
        using False by (simp add: ch sorted_chain_append_other)
    qed
  next
    fix chain c
    assume c: "chains (add m u) chain = Some c"
    show "map_of (orderedChains (add m u))
        (chainKey (chain_publisherId c) (chain_msgChainId c)) = Some chain"
    proof (cases "chain = allocated u")
      case True
      with c show ?thesis
        by (auto simp: oc ch chain_add_def new_OrderedMsgChain_def)
    next
      case False
      with c have "chains u chain = Some c" by (simp add: ch)
      from sorted_by_keyD(4) [OF s this] None show ?thesis
        by (auto simp: oc)
    qed
  qed
next
  case (Some r)
  let ?k = "chainKey (getPublisherId m) (getMsgChainId m)"
  from sorted_by_keyD(3) [OF s Some] obtain c0 where
    c0: "chains u r = Some c0" "sorted_chain ms ?k c0" by blast
  have oc: "orderedChains (add m u) = orderedChains u"
    and ch: "chains (add m u) = (chains u)(r \<mapsto> chain_add m c0)"
    and al: "allocated (add m u) = allocated u"
    using Some c0(1) by (simp_all add: add_def getChain_def Let_def invoke_def)
  have new: "sorted_chain (ms @ [m]) ?k (chain_add m c0)"
    using c0(2) a by (rule sorted_chain_append_own) (simp_all add: chain_add_def)
  have key0: "chainKey (chain_publisherId c0) (chain_msgChainId c0) = ?k"
    using c0(2) by (simp add: sorted_chain_def)
  show ?thesis
  proof (rule sorted_by_keyI)
    fix key m'
    assume "map_of (orderedChains (add m u)) key = None" and "m' \<in> set (ms @ [m])"
    then show "chainKey (getPublisherId m') (getMsgChainId m') \<noteq> key"
      using sorted_by_keyD(1) [OF s, of key m'] Some
      by (auto simp: oc)
  next
    fix key chain
    assume "map_of (orderedChains (add m u)) key = Some chain"
    then show "chain < allocated (add m u)"
      using sorted_by_keyD(2) [OF s, of key chain]
      by (simp add: oc al)
  next
    fix key chain
    assume "map_of (orderedChains (add m u)) key = Some chain"
    then have old: "map_of (orderedChains u) key = Some chain"
      by (simp add: oc)
    from sorted_by_keyD(3) [OF s old] obtain c where
      c: "chains u chain = Some c" "sorted_chain ms key c" by blast
    show "\<exists>c. chains (add m u) chain = Some c \<and> sorted_chain (ms @ [m]) key c"
    proof (cases "chain = r")
      case True
      with c c0 have "key = ?k" by (simp add: sorted_chain_def)
      with True new show ?thesis by (simp add: ch)
    next
      case False
      have "key \<noteq> ?k"
        using old Some False by auto
      with False c show ?thesis
        by (simp add: ch sorted_chain_append_other)
    qed
  next
    fix chain c
    assume c: "chains (add m u) chain = Some c"
    show "map_of (orderedChains (add m u))
        (chainKey (chain_publisherId c) (chain_msgChainId c)) = Some chain"
    proof (cases "chain = r")
      case True
      with c have "c = chain_add m c0" by (simp add: ch)
      with key0 Some True show ?thesis
        by (simp add: oc chain_add_def)
    next
      case False
      with c have "chains u chain = Some c" by (simp add: ch)
      from sorted_by_keyD(4) [OF s this] show ?thesis
        by (simp add: oc)
    qed
  qed
qed

lemma mark_eq_add: "markMessageExplicitly m u = add m u"
proof -
  have "chain_markMessageExplicitly m = chain_add m"
    by (simp add: fun_eq_iff chain_markMessageExplicitly_def chain_add_def)
  then show ?thesis
    by (simp add: markMessageExplicitly_def add_def)
qed

lemma sorted_by_key_invoke:
  assumes s: "sorted_by_key ms u"
    and f: "\<And>c. chain_publisherId (f c) = chain_publisherId c"
      "\<And>c. chain_msgChainId (f c) = chain_msgChainId c"
      "\<And>c. chain_received (f c) = chain_received c"
  shows "sorted_by_key ms (invoke f r u)"
proof (rule sorted_by_keyI)
  fix key m
  assume "map_of (orderedChains (invoke f r u)) key = None" and "m \<in> set ms"
  then show "chainKey (getPublisherId m) (getMsgChainId m) \<noteq> key"
    using sorted_by_keyD(1) [OF s, of key m] by simp
next
  fix key chain
  assume "map_of (orderedChains (invoke f r u)) key = Some chain"
  then show "chain < allocated (invoke f r u)"
    using sorted_by_keyD(2) [OF s, of key chain] by simp
next
  fix key chain
  assume "map_of (orderedChains (invoke f r u)) key = Some chain"
  then have "map_of (orderedChains u) key = Some chain" by simp
  from sorted_by_keyD(3) [OF s this] obtain c where
    c: "chains u chain = Some c" "sorted_chain ms key c" by blast
  from c(2) have "sorted_chain ms key (f c)"
    by (auto simp: sorted_chain_def f)
  with c show "\<exists>c. chains (invoke f r u) chain = Some c \<and> sorted_chain ms key c"
    by (auto simp: chains_invoke)
next
  fix chain c
  assume "chains (invoke f r u) chain = Some c"
  then obtain c' where c': "chains u chain = Some c'"
      "chain_publisherId c = chain_publisherId c'" "chain_msgChainId c = chain_msgChainId c'"
    by (auto simp: chains_invoke f split: if_splits)
  from sorted_by_keyD(4) [OF s c'(1)] c'(2,3)
  show "map_of (orderedChains (invoke f r u))
      (chainKey (chain_publisherId c) (chain_msgChainId c)) = Some chain"
    by simp
qed

lemma sorted_by_key_fold_invoke:
  assumes "sorted_by_key ms u"
    and "\<And>c. chain_publisherId (f c) = chain_publisherId c"
      "\<And>c. chain_msgChainId (f c) = chain_msgChainId c"
      "\<And>c. chain_received (f c) = chain_received c"
  shows "sorted_by_key ms (fold (invoke f) rs u)"
  using assms(1)
  by (induction rs arbitrary: u) (simp_all add: sorted_by_key_invoke assms(2-4))

lemma sorted_by_key_maxGapRequests:
  "sorted_by_key ms (u\<lparr>maxGapRequests := x\<rparr>) = sorted_by_key ms u"
  by (simp add: sorted_by_key_def cong: option.case_cong)

lemma sorted_by_key_step:
  assumes "sorted_by_key ms u" and "wellFormed [c]"
  shows "sorted_by_key (ms @ routed [c]) (ordering_step c u)"
proof (cases c)
  case (Add m)
  with assms show ?thesis by (simp add: wellFormed_def sorted_by_key_add)
next
  case (Mark m)
  with assms show ?thesis by (simp add: wellFormed_def sorted_by_key_add mark_eq_add)
next
  case ClearGaps
  with assms(1) show ?thesis
    by (simp add: clearGaps_def sorted_by_key_fold_invoke chain_clearGap_def)
next
  case Disable
  with assms(1) show ?thesis
    by (simp add: disable_def Let_def sorted_by_key_fold_invoke chain_disable_def
        sorted_by_key_maxGapRequests)
qed

lemma routed_Cons: "routed (c # cs) = routed [c] @ routed cs"
  by (cases c) simp_all

lemma wellFormed_Cons: "wellFormed (c # cs) = (wellFormed [c] \<and> wellFormed cs)"
  by (cases c) (simp_all add: wellFormed_def)

lemma sorted_by_key_calls:
  "sorted_by_key ms u \<Longrightarrow> wellFormed cs \<Longrightarrow>
   sorted_by_key (ms @ routed cs) (ordering_calls cs u)"
proof (induction cs arbitrary: ms u)
  case Nil
  then show ?case by (simp add: ordering_calls_def)
next
  case (Cons c cs)
  from Cons.prems have w: "wellFormed [c]" "wellFormed cs"
    by (simp_all add: wellFormed_Cons [of c cs])
  from Cons.IH [OF sorted_by_key_step [OF Cons.prems(1) w(1)] w(2)]
  show ?case
    by (simp add: ordering_calls_def routed_Cons [of c cs])
qed

lemma sorted_by_key_new: "sorted_by_key [] (new_OrderingUtil pt rt mg)"
  by (simp add: sorted_by_key_def new_OrderingUtil_def)

lemma keys_assign:
  "key \<notin> fst ` set d \<Longrightarrow> map fst (assign key v d) = map fst d @ [key]"
  by (induction d) auto

lemma length_assign:
  "key \<notin> fst ` set d \<Longrightarrow> length (assign key v d) = Suc (length d)"
  by (induction d) auto

text \<open>A chain is constructed only together with a new key.\<close>

lemma one_per_key_step:
  assumes "one_per_key u"
  shows "one_per_key (ordering_step c u)"
proof -
  have "one_per_key (add m u)" for m
    using assms
    by (auto simp: one_per_key_def add_def getChain_def Let_def keys_assign length_assign
        map_of_eq_None_iff split: option.splits)
  with assms show ?thesis
    by (cases c) (simp_all add: mark_eq_add, simp_all add: one_per_key_def clearGaps_def disable_def Let_def)
qed

lemma one_per_key_calls: "one_per_key u \<Longrightarrow> one_per_key (ordering_calls cs u)"
  by (induction cs arbitrary: u) (simp_all add: ordering_calls_def one_per_key_step)

lemma one_per_key_new: "one_per_key (new_OrderingUtil pt rt mg)"
  by (simp add: one_per_key_def new_OrderingUtil_def)

text \<open>
  C9.  For every sequence of calls of a new multiplexer and every two messages added
  through \<^verbatim>\<open>add\<close> or \<^verbatim>\<open>markMessageExplicitly\<close>: one chain object has received both if and
  only if their pairs (publisherId, msgChainId) are equal.  The dictionary holds a chain
  under a key exactly when a message with that key has been routed, the chain under the
  key of a message has received the messages of that pair, all of them and no others, in
  the order of the calls, and as many chains have been constructed as there are keys in
  use: a chain is made on the first use of its key and found again on every later one.
  The hypothesis \<open>wellFormed\<close> is the type of the publisher id (\<^verbatim>\<open>EthereumAddress\<close>): the
  key is the concatenation of the two strings, which determines the pair because all
  addresses have the same length.
\<close>

theorem messages_routed_by_pair:
  assumes "wellFormed cs"
  shows "(\<forall>m \<in> set (routed cs). \<forall>m' \<in> set (routed cs).
            sameChain (ordering_calls cs (new_OrderingUtil pt rt mg)) m m' = samePair m m') \<and>
         (\<forall>key. (chainOf (ordering_calls cs (new_OrderingUtil pt rt mg)) key \<noteq> None) =
            (\<exists>m \<in> set (routed cs). chainKey (getPublisherId m) (getMsgChainId m) = key)) \<and>
         (\<forall>m \<in> set (routed cs).
            map_option chain_received
              (chainOf (ordering_calls cs (new_OrderingUtil pt rt mg))
                 (chainKey (getPublisherId m) (getMsgChainId m))) =
            Some (filter (samePair m) (routed cs))) \<and>
         allocated (ordering_calls cs (new_OrderingUtil pt rt mg)) =
           card ((\<lambda>m. chainKey (getPublisherId m) (getMsgChainId m)) ` set (routed cs))"
proof -
  let ?u = "ordering_calls cs (new_OrderingUtil pt rt mg)"
  let ?ms = "routed cs"
  let ?key = "\<lambda>m. chainKey (getPublisherId m) (getMsgChainId m)"
  from sorted_by_key_calls [OF sorted_by_key_new assms, of pt rt mg]
  have s: "sorted_by_key ?ms ?u" by simp
  have addr: "isEthereumAddress (getPublisherId m)" if "m \<in> set ?ms" for m
    using assms that by (simp add: wellFormed_def list_all_iff)
  have own: "\<exists>chain c. map_of (orderedChains ?u) (?key m) = Some chain \<and>
        chains ?u chain = Some c \<and> chain_received c = filter (samePair m) ?ms"
    if m: "m \<in> set ?ms" for m
  proof (cases "map_of (orderedChains ?u) (?key m)")
    case None
    from sorted_by_keyD(1) [OF s None m] show ?thesis by simp
  next
    case (Some chain)
    from sorted_by_keyD(3) [OF s Some] obtain c where
      c: "chains ?u chain = Some c" "sorted_chain ?ms (?key m) c" by blast
    from c(2) have k: "isEthereumAddress (chain_publisherId c)"
        "?key m = chainKey (chain_publisherId c) (chain_msgChainId c)"
        "chain_received c = filter (\<lambda>m. (getPublisherId m, getMsgChainId m) =
                         (chain_publisherId c, chain_msgChainId c)) ?ms"
      by (simp_all add: sorted_chain_def)
    from k(2) addr [OF m] k(1)
    have "getPublisherId m = chain_publisherId c \<and> getMsgChainId m = chain_msgChainId c"
      by (simp add: chainKey_inj)
    then have "chain_received c = filter (samePair m) ?ms"
      by (auto simp: k(3) samePair_def intro: filter_cong)
    with Some c(1) show ?thesis by simp
  qed
  have route: "sameChain ?u m m' = samePair m m'"
    if m: "m \<in> set ?ms" and m': "m' \<in> set ?ms" for m m'
  proof
    assume "sameChain ?u m m'"
    then obtain chain c where kc: "chains ?u chain = Some c"
        "m \<in> set (chain_received c)" "m' \<in> set (chain_received c)"
      by (auto simp: sameChain_def)
    from sorted_by_keyD(3) [OF s sorted_by_keyD(4) [OF s kc(1)]] kc(1)
    have "chain_received c =
        filter (\<lambda>m. (getPublisherId m, getMsgChainId m) =
                     (chain_publisherId c, chain_msgChainId c)) ?ms"
      by (simp add: sorted_chain_def)
    with kc(2,3) show "samePair m m'"
      by (auto simp: samePair_def)
  next
    assume p: "samePair m m'"
    from own [OF m] obtain chain c where
      c: "chains ?u chain = Some c" "chain_received c = filter (samePair m) ?ms"
      by blast
    have "m \<in> set (chain_received c)" "m' \<in> set (chain_received c)"
      using m m' p by (simp_all add: c(2) samePair_def)
    with c(1) show "sameChain ?u m m'"
      by (auto simp: sameChain_def)
  qed
  have keys: "(map_of (orderedChains ?u) key \<noteq> None) = (\<exists>m \<in> set ?ms. ?key m = key)" for key
  proof (cases "map_of (orderedChains ?u) key")
    case None
    with sorted_by_keyD(1) [OF s None] show ?thesis by auto
  next
    case (Some chain)
    from sorted_by_keyD(3) [OF s Some] obtain c where "sorted_chain ?ms key c"
      by blast
    then have c: "key = chainKey (chain_publisherId c) (chain_msgChainId c)"
        "chain_received c \<noteq> []"
        "set (chain_received c) \<subseteq> {m \<in> set ?ms. (getPublisherId m, getMsgChainId m) =
                         (chain_publisherId c, chain_msgChainId c)}"
      by (auto simp: sorted_chain_def)
    from c(2) obtain m where "m \<in> set (chain_received c)"
      by (cases "chain_received c") auto
    with c(3) have m: "m \<in> set ?ms"
        "getPublisherId m = chain_publisherId c" "getMsgChainId m = chain_msgChainId c"
      by auto
    have "?key m = key"
      by (simp add: c(1) m(2,3))
    with m(1) Some show ?thesis by blast
  qed
  have lazy: "(chainOf ?u key \<noteq> None) = (\<exists>m \<in> set ?ms. ?key m = key)" for key
  proof (cases "map_of (orderedChains ?u) key")
    case None
    with keys [of key] show ?thesis by (simp add: chainOf_def)
  next
    case (Some chain)
    from sorted_by_keyD(3) [OF s Some] Some keys [of key] show ?thesis
      by (auto simp: chainOf_def)
  qed
  have received: "map_option chain_received (chainOf ?u (?key m)) = Some (filter (samePair m) ?ms)"
    if m: "m \<in> set ?ms" for m
    using own [OF m] by (auto simp: chainOf_def)
  from one_per_key_calls [OF one_per_key_new, of cs pt rt mg]
  have o: "allocated ?u = length (map fst (orderedChains ?u))"
      "distinct (map fst (orderedChains ?u))"
    by (simp_all add: one_per_key_def)
  have "(key \<in> set (map fst (orderedChains ?u))) = (key \<in> ?key ` set ?ms)" for key
    using keys [of key] by (simp add: map_of_eq_None_iff) blast
  then have "set (map fst (orderedChains ?u)) = ?key ` set ?ms"
    by blast
  with distinct_card [OF o(2)] o(1)
  have count: "allocated ?u = card (?key ` set ?ms)"
    by simp
  from route lazy received count show ?thesis by blast
qed

lemma addrs: "isEthereumAddress publisherA" "isEthereumAddress publisherB"
  by (simp_all add: isEthereumAddress_def publisherA_def publisherB_def)

text \<open>
  C9, a witness: two messages of publisher A on chain c1 and one of publisher B on a chain
  of the same name.
\<close>

theorem messages_routed_by_pair_witness:
  "wellFormed [Add msgA1, Add msgB1, Mark msgA2] \<and>
   sameChain (ordering_calls [Add msgA1, Add msgB1, Mark msgA2] (new_OrderingUtil None None (Some 10)))
     msgA1 msgA2 \<and>
   \<not> sameChain (ordering_calls [Add msgA1, Add msgB1, Mark msgA2] (new_OrderingUtil None None (Some 10)))
     msgA1 msgB1 \<and>
   chainOf (ordering_calls [Add msgA1, Add msgB1, Mark msgA2] (new_OrderingUtil None None (Some 10)))
     (chainKey publisherB ''c2'') = None \<and>
   map_option chain_received
     (chainOf (ordering_calls [Add msgA1, Add msgB1, Mark msgA2] (new_OrderingUtil None None (Some 10)))
        (chainKey publisherA ''c1'')) = Some [msgA1, msgA2] \<and>
   allocated (ordering_calls [Add msgA1, Add msgB1, Mark msgA2] (new_OrderingUtil None None (Some 10)))
     = 2"
proof -
  have w: "wellFormed [Add msgA1, Add msgB1, Mark msgA2]"
    by (simp add: wellFormed_def addrs msgA1_def msgA2_def msgB1_def)
  have p: "samePair msgA1 msgA2" "\<not> samePair msgA1 msgB1"
    by (simp_all add: samePair_def msgA1_def msgA2_def msgB1_def publisherA_def publisherB_def)
  have k: "\<not> (\<exists>m \<in> set (routed [Add msgA1, Add msgB1, Mark msgA2]).
      chainKey (getPublisherId m) (getMsgChainId m) = chainKey publisherB ''c2'')"
    by (simp add: chainKey_def msgA1_def msgA2_def msgB1_def publisherA_def publisherB_def)
  have f: "filter (samePair msgA1) (routed [Add msgA1, Add msgB1, Mark msgA2]) = [msgA1, msgA2]"
    using p by (simp add: samePair_def)
  have a: "chainKey (getPublisherId msgA1) (getMsgChainId msgA1) = chainKey publisherA ''c1''"
    by (simp add: msgA1_def)
  have n: "card ((\<lambda>m. chainKey (getPublisherId m) (getMsgChainId m)) `
      set (routed [Add msgA1, Add msgB1, Mark msgA2])) = 2"
    by (simp add: chainKey_def msgA1_def msgA2_def msgB1_def publisherA_def publisherB_def
        card_insert_if)
  let ?u = "ordering_calls [Add msgA1, Add msgB1, Mark msgA2] (new_OrderingUtil None None (Some 10))"
  note t = messages_routed_by_pair [OF w, of None None "Some 10"]
  have m: "msgA1 \<in> set (routed [Add msgA1, Add msgB1, Mark msgA2])"
      "msgA2 \<in> set (routed [Add msgA1, Add msgB1, Mark msgA2])"
      "msgB1 \<in> set (routed [Add msgA1, Add msgB1, Mark msgA2])"
    by simp_all
  from t m have "sameChain ?u msgA1 msgA2 = samePair msgA1 msgA2"
      "sameChain ?u msgA1 msgB1 = samePair msgA1 msgB1"
    by blast+
  moreover from t k have "chainOf ?u (chainKey publisherB ''c2'') = None"
    by blast
  moreover from t m(1) have "map_option chain_received
     (chainOf ?u (chainKey (getPublisherId msgA1) (getMsgChainId msgA1))) =
       Some (filter (samePair msgA1) (routed [Add msgA1, Add msgB1, Mark msgA2]))"
    by blast
  moreover from t have "allocated ?u = card ((\<lambda>m. chainKey (getPublisherId m) (getMsgChainId m)) `
      set (routed [Add msgA1, Add msgB1, Mark msgA2]))"
    by blast
  ultimately show ?thesis
    using w p f a n by simp
qed

end
